theory Spec2Isabelle
  imports Main "HOL-Library.Sublist"
begin

section \<open>The generic parse tree\<close>

text \<open>
  \<^verbatim>\<open>struct SMTLib2Expression { variant<string_view, vector<SMTLib2Expression>> data; }\<close>:
  a node is an atom (a view into the source text) or an ordered list of nodes.
\<close>

datatype SMTLib2Expression =
    Atom string
  | List "SMTLib2Expression list"

section \<open>Character predicates of liblangutil\<close>

text \<open>
  Modelled from the spec: \<^verbatim>\<open>isWhiteSpace\<close> and \<^verbatim>\<open>isDigit\<close> are declared in
  liblangutil/Common.h, which is not among the sources. The spec speaks of
  "a fixed whitespace-character predicate" and of a first character that "is a digit";
  the predicate below takes blank, line feed, tab and carriage return as whitespace
  and the characters 0 to 9 as digits. The NUL character is not whitespace.
\<close>

definition isWhiteSpace :: "char \<Rightarrow> bool" where
  "isWhiteSpace c \<longleftrightarrow> c = CHR '' '' \<or> c = CHR 0x0A \<or> c = CHR 0x09 \<or> c = CHR 0x0D"

definition isDigit :: "char \<Rightarrow> bool" where
  "isDigit c \<longleftrightarrow> c \<in> set ''0123456789''"

section \<open>SMTLib2Parser\<close>

text \<open>
  The parser object is the immutable text \<open>m_data\<close> and the cursor \<open>m_pos\<close>. Every
  member function below takes the text and the cursor and returns the new cursor.
\<close>

text \<open>\<^verbatim>\<open>char token() { return m_pos < m_data.size() ? m_data[m_pos] : 0; }\<close>\<close>

definition token :: "string \<Rightarrow> nat \<Rightarrow> char" where
  "token m_data m_pos = (if m_pos < length m_data then m_data ! m_pos else CHR 0x00)"

text \<open>\<^verbatim>\<open>void advance() { m_pos++; }\<close>\<close>

definition advance :: "nat \<Rightarrow> nat" where
  "advance m_pos = Suc m_pos"

text \<open>\<^verbatim>\<open>m_data.substr(pos, n)\<close> for \<open>pos \<le> size\<close>.\<close>

definition substr :: "string \<Rightarrow> nat \<Rightarrow> nat \<Rightarrow> string" where
  "substr m_data pos n = take n (drop pos m_data)"

text \<open>\<^verbatim>\<open>string_view remainingInput() const { return m_data.substr(m_pos); }\<close>\<close>

definition remainingInput :: "string \<Rightarrow> nat \<Rightarrow> string" where
  "remainingInput m_data m_pos = drop m_pos m_data"

lemma isWhiteSpace_token_less: "isWhiteSpace (token d p) \<Longrightarrow> p < length d"
  by (auto simp: token_def isWhiteSpace_def split: if_splits)

text \<open>\<^verbatim>\<open>while (isWhiteSpace(token())) advance();\<close>\<close>

function skipWhitespace :: "string \<Rightarrow> nat \<Rightarrow> nat" where
  "skipWhitespace m_data m_pos =
     (if isWhiteSpace (token m_data m_pos) then skipWhitespace m_data (advance m_pos)
      else m_pos)"
  by pat_completeness auto
termination
  by (relation "measure (\<lambda>(d, p). length d - p)")
     (auto simp: advance_def dest: isWhiteSpace_token_less)

declare skipWhitespace.simps [simp del]

text \<open>
  The loop of \<open>parseToken\<close>:
  \<^verbatim>\<open>
  while (m_pos < m_data.size())
  {
    char c = token();
    if (isPipe && (m_pos > start && c == '|')) { advance(); break; }
    else if (!isPipe && (langutil::isWhiteSpace(c) || c == '(' || c == ')')) break;
    advance();
  }
  \<close>
\<close>

function parseTokenLoop :: "string \<Rightarrow> nat \<Rightarrow> bool \<Rightarrow> nat \<Rightarrow> nat" where
  "parseTokenLoop m_data start isPipe m_pos =
     (if m_pos < length m_data then
        (let c = token m_data m_pos in
         if isPipe \<and> (m_pos > start \<and> c = CHR ''|'') then advance m_pos
         else if \<not> isPipe \<and> (isWhiteSpace c \<or> c = CHR ''('' \<or> c = CHR '')'') then m_pos
         else parseTokenLoop m_data start isPipe (advance m_pos))
      else m_pos)"
  by pat_completeness auto
termination
  by (relation "measure (\<lambda>(d, s, b, p). length d - p)") (auto simp: advance_def)

declare parseTokenLoop.simps [simp del]

definition parseToken :: "string \<Rightarrow> nat \<Rightarrow> string \<times> nat" where
  "parseToken m_data m_pos =
     (let p0 = skipWhitespace m_data m_pos;
          start = p0;
          isPipe = (token m_data p0 = CHR ''|'');
          p1 = parseTokenLoop m_data start isPipe p0
      in (substr m_data start (p1 - start), p1))"

text \<open>
  \<open>parseExpression\<close> and the loop that collects the elements of a list:
  \<^verbatim>\<open>
  skipWhitespace();
  if (token() == '(')
  {
    advance();
    vector<SMTLib2Expression> subExpressions;
    while (token() != 0 && token() != ')')
    {
      subExpressions.emplace_back(parseExpression());
      skipWhitespace();
    }
    if (token() == ')')
      advance();
    return {subExpressions};
  }
  else
    return {parseToken()};
  \<close>
\<close>

function parseExpression :: "string \<Rightarrow> nat \<Rightarrow> SMTLib2Expression \<times> nat"
  and parseSubExpressions ::
    "string \<Rightarrow> nat \<Rightarrow> SMTLib2Expression list \<Rightarrow> SMTLib2Expression list \<times> nat"
where
  "parseExpression m_data m_pos =
     (let p1 = skipWhitespace m_data m_pos in
      if token m_data p1 = CHR ''('' then
        (case parseSubExpressions m_data (advance p1) [] of
           (subExpressions, p2) \<Rightarrow>
             (List subExpressions, if token m_data p2 = CHR '')'' then advance p2 else p2))
      else
        (case parseToken m_data p1 of (a, p2) \<Rightarrow> (Atom a, p2)))"
| "parseSubExpressions m_data m_pos subExpressions =
     (if token m_data m_pos \<noteq> CHR 0x00 \<and> token m_data m_pos \<noteq> CHR '')'' then
        (case parseExpression m_data m_pos of
           (e, p1) \<Rightarrow>
             parseSubExpressions m_data (skipWhitespace m_data p1) (subExpressions @ [e]))
      else (subExpressions, m_pos))"
  by pat_completeness auto

lemma skipWhitespace_ge: "m_pos \<le> skipWhitespace m_data m_pos"
  by (induction m_data m_pos rule: skipWhitespace.induct)
     (subst skipWhitespace.simps, auto simp: advance_def)

lemma parseTokenLoop_ge: "m_pos \<le> parseTokenLoop m_data start isPipe m_pos"
  by (induction m_data start isPipe m_pos rule: parseTokenLoop.induct)
     (subst parseTokenLoop.simps, auto simp: advance_def Let_def)

lemma parseTokenLoop_progress:
  "token d p \<noteq> CHR 0x00 \<Longrightarrow> token d p \<noteq> CHR '')'' \<Longrightarrow> token d p \<noteq> CHR ''('' \<Longrightarrow>
   \<not> isWhiteSpace (token d p) \<Longrightarrow> p < parseTokenLoop d p b p"
  apply (subst parseTokenLoop.simps)
  apply (auto simp: Let_def advance_def token_def split: if_splits)
  using parseTokenLoop_ge[of "Suc p" d p b] apply simp
  using parseTokenLoop_ge[of "Suc p" d p b] apply simp
  done

lemma skipWhitespace_fix: "\<not> isWhiteSpace (token d p) \<Longrightarrow> skipWhitespace d p = p"
  by (subst skipWhitespace.simps) simp

lemma skipWhitespace_not_ws: "\<not> isWhiteSpace (token d (skipWhitespace d p))"
  by (induction d p rule: skipWhitespace.induct) (subst skipWhitespace.simps, auto)


lemma parseToken_ge: "p \<le> snd (parseToken d p)"
  using skipWhitespace_ge[of p d] parseTokenLoop_ge[of "skipWhitespace d p" d]
  by (auto simp: parseToken_def Let_def intro: order_trans)

lemma parseToken_progress:
  "token d p \<noteq> CHR 0x00 \<Longrightarrow> token d p \<noteq> CHR '')'' \<Longrightarrow> token d p \<noteq> CHR ''('' \<Longrightarrow>
   \<not> isWhiteSpace (token d p) \<Longrightarrow> p < snd (parseToken d p)"
  by (simp add: parseToken_def Let_def skipWhitespace_fix parseTokenLoop_progress)

lemma skipWhitespace_cases:
  "skipWhitespace d p = p \<or> p < skipWhitespace d p"
  using skipWhitespace_ge[of p d] by auto

text \<open>
  The loop of a list calls \<open>parseExpression\<close> at a character that is neither the end
  marker nor a closing parenthesis; such a call consumes at least one character. This is
  what makes the nested recursion terminate.
\<close>

lemma parse_progress_partial:
  "parseExpression_parseSubExpressions_dom (Inl (d, p)) \<Longrightarrow>
     p \<le> snd (parseExpression d p) \<and>
     (token d p \<noteq> CHR 0x00 \<and> token d p \<noteq> CHR '')'' \<longrightarrow> p < snd (parseExpression d p))"
  "parseExpression_parseSubExpressions_dom (Inr (d, p, acc)) \<Longrightarrow>
     p \<le> snd (parseSubExpressions d p acc)"
proof (induction d p and d p acc rule: parseExpression_parseSubExpressions.pinduct)
  case (1 d p)
  let ?p1 = "skipWhitespace d p"
  have ge: "p \<le> ?p1" by (rule skipWhitespace_ge)
  show ?case
  proof (cases "token d ?p1 = CHR ''(''")
    case True
    obtain subs p2 where sub: "parseSubExpressions d (advance ?p1) [] = (subs, p2)"
      by (cases "parseSubExpressions d (advance ?p1) []")
    from "1.IH"[OF refl True] sub have "advance ?p1 \<le> p2" by simp
    with ge have "p < p2" by (simp add: advance_def)
    with True sub show ?thesis
      by (simp add: parseExpression.psimps[OF "1.hyps"] Let_def advance_def)
  next
    case False
    have res: "snd (parseExpression d p) = snd (parseToken d ?p1)"
      using False by (simp add: parseExpression.psimps[OF "1.hyps"] Let_def split: prod.splits)
    have a: "p \<le> snd (parseToken d ?p1)"
      using ge parseToken_ge[of ?p1 d] by (rule order_trans)
    have b: "p < snd (parseToken d ?p1)"
      if h: "token d p \<noteq> CHR 0x00" "token d p \<noteq> CHR '')''"
    proof (cases "isWhiteSpace (token d p)")
      case True
      then have "p < ?p1"
        using skipWhitespace_ge[of "advance p" d]
        by (subst skipWhitespace.simps) (simp add: advance_def)
      then show ?thesis using parseToken_ge[of ?p1 d] by simp
    next
      case nws: False
      then have eq: "?p1 = p" by (rule skipWhitespace_fix)
      with False have "token d p \<noteq> CHR ''(''" by simp
      with h nws show ?thesis unfolding eq by (intro parseToken_progress)
    qed
    show ?thesis using a b res by simp
  qed
next
  case (2 d p acc)
  show ?case
  proof (cases "token d p \<noteq> CHR 0x00 \<and> token d p \<noteq> CHR '')''")
    case True
    obtain e p1 where pe: "parseExpression d p = (e, p1)"
      by (cases "parseExpression d p")
    from "2.IH"(1)[OF True] pe True have "p < p1" by simp
    moreover have "p1 \<le> skipWhitespace d p1" by (rule skipWhitespace_ge)
    moreover from "2.IH"(2)[OF True pe[symmetric]]
    have "skipWhitespace d p1 \<le> snd (parseSubExpressions d (skipWhitespace d p1) (acc @ [e]))"
      by simp
    ultimately show ?thesis
      using True pe by (simp add: parseSubExpressions.psimps[OF "2.hyps"])
  next
    case False
    then show ?thesis
      by (auto simp add: parseSubExpressions.psimps[OF "2.hyps"])
  qed
qed

lemma token_nonzero_less: "token d p \<noteq> CHR 0x00 \<Longrightarrow> p < length d"
  by (simp add: token_def split: if_splits)

lemma parseExpression_parseSubExpressions_total:
  "All parseExpression_parseSubExpressions_dom"
proof (relation "measure (\<lambda>x. case x of Inl (d, p) \<Rightarrow> 2 * (length d - p)
                              | Inr (d, p, acc) \<Rightarrow> 2 * (length d - p) + 1)", goal_cases)
  case 1
  show ?case by simp
next
  case (2 d p p1)
  then have "token d p1 \<noteq> CHR 0x00" by simp
  then have "p1 < length d" by (rule token_nonzero_less)
  moreover have "p \<le> p1" using 2 skipWhitespace_ge[of p d] by simp
  ultimately show ?case by (simp add: advance_def)
next
  case (3 d p acc)
  then show ?case by simp
next
  case (4 d p acc e p1)
  then have "p < snd (parseExpression d p)" using parse_progress_partial(1)[of d p] by simp
  with 4(2) have "p < p1" by (metis snd_conv)
  moreover have "p1 \<le> skipWhitespace d p1" by (rule skipWhitespace_ge)
  moreover have "p < length d" using 4 by (auto dest: token_nonzero_less)
  ultimately show ?case by simp
qed

termination parseExpression
  by (rule parseExpression_parseSubExpressions_total)

declare parseExpression.simps [simp del] parseSubExpressions.simps [simp del]

lemma parseExpression_ge: "p \<le> snd (parseExpression d p)"
  using parse_progress_partial(1)[of d p] parseExpression_parseSubExpressions_total by simp

lemma parseExpression_progress:
  "token d p \<noteq> CHR 0x00 \<Longrightarrow> token d p \<noteq> CHR '')'' \<Longrightarrow> p < snd (parseExpression d p)"
  using parse_progress_partial(1)[of d p] parseExpression_parseSubExpressions_total by simp

lemma parseSubExpressions_ge: "p \<le> snd (parseSubExpressions d p acc)"
  using parse_progress_partial(2)[of d p acc] parseExpression_parseSubExpressions_total
  by simp

section \<open>Sorts and sorted expressions\<close>

text \<open>
  Modelled from the spec: libsmtutil (\<^verbatim>\<open>Sort\<close>, \<^verbatim>\<open>SortProvider\<close>,
  \<^verbatim>\<open>smtutil::Expression\<close>) is not among the sources. The spec gives the sorts as the
  closed set Boolean, Real, and an elaborated expression as "a sorted tree with a
  symbolic operator/name, an ordered list of sorted sub-expressions, and a resolved
  Sort". \<open>boolSort\<close> and \<open>realSort\<close> are \<^verbatim>\<open>SortProvider::boolSort\<close> and
  \<^verbatim>\<open>SortProvider::realSort\<close>; the constructor \<open>Expression name arguments sort\<close> is
  \<^verbatim>\<open>Expression(name, arguments, sort)\<close>.
\<close>

datatype Sort = boolSort | realSort

datatype Expression =
  Expression (expr_name: string) (expr_arguments: "Expression list") (expr_sort: Sort)

section \<open>Failures\<close>

text \<open>
  Nothing in the program catches an exception, so every throw ends the run. The
  elaborator and the driver fail in these ways:
  \<^item> \<open>AssertionFailed msg\<close>: a \<^verbatim>\<open>solAssert\<close> whose condition is false;
  \<^item> \<open>BadVariantAccess\<close>: \<^verbatim>\<open>std::get\<close> on a node that holds the other alternative;
  \<^item> \<open>OutOfRange\<close>: \<^verbatim>\<open>map::at\<close> on a name that is not a key;
  \<^item> \<open>InvalidNumber\<close>: the \<^verbatim>\<open>u256\<close> constructor rejects its text;
  \<^item> \<open>UndefinedBehaviour\<close>: \<^verbatim>\<open>front()\<close> or \<^verbatim>\<open>back()\<close> of an empty sequence, for
    which C++ defines no behaviour at all.
\<close>

datatype error =
    AssertionFailed string
  | BadVariantAccess
  | OutOfRange
  | InvalidNumber
  | UndefinedBehaviour

section \<open>The elaborator\<close>

text \<open>
  The type \<^verbatim>\<open>u256\<close> (libsolutil/Numeric.h) is not among the sources. Its constructor
  from text and its \<^verbatim>\<open>str()\<close> are parameters of the elaborator: \<open>u256 :: string \<Rightarrow> 'u option\<close>
  is \<open>None\<close> where the constructor throws, and \<open>str :: 'u \<Rightarrow> string\<close> prints the number.

  \<^verbatim>\<open>
  u256 parseRational(string_view _atom)
  {
    if (_atom.size() >= 3 && _atom.at(_atom.size() - 1) == '0' && _atom.at(_atom.size() - 2) == '.')
      return parseRational(_atom.substr(0, _atom.size() - 2));
    else
      return u256(_atom);
  }
  \<close>
\<close>

function parseRational :: "(string \<Rightarrow> 'u option) \<Rightarrow> string \<Rightarrow> 'u option" where
  "parseRational u256 atom =
     (if length atom \<ge> 3 \<and> atom ! (length atom - 1) = CHR ''0''
         \<and> atom ! (length atom - 2) = CHR ''.''
      then parseRational u256 (substr atom 0 (length atom - 2))
      else u256 atom)"
  by pat_completeness auto
termination
  by (relation "measure (\<lambda>(u, a). length a)") (auto simp: substr_def)

declare parseRational.simps [simp del]

text \<open>\<^verbatim>\<open>set<string> boolOperators{"and", "or", "not", "=", "<", ">", "<=", ">=", "=>"};\<close>\<close>

definition boolOperators :: "string set" where
  "boolOperators = {''and'', ''or'', ''not'', ''='', ''<'', ''>'', ''<='', ''>='', ''=>''}"

text \<open>
  \<open>toSMTUtilExpression\<close> with its two loops: \<open>letBindings\<close> runs over the bindings of a
  \<open>let\<close> (it carries the environment \<open>_variableSorts\<close> the function was called with, the
  copy \<open>subSorts\<close> being extended, and the \<open>arguments\<close> collected so far), and
  \<open>applicationArguments\<close> runs over the elements after the operator.

  In the order of the source: \<^verbatim>\<open>_atom.front()\<close> needs a non-empty atom;
  \<^verbatim>\<open>get<string_view>(_subExpr.front().data)\<close> needs a non-empty list whose first
  element is an atom; a \<open>let\<close> asserts three elements, reads the second as a list, and
  for each binding reads a list, asserts two elements and reads the first as an atom;
  any other operator ends by reading \<^verbatim>\<open>arguments.back().sort\<close> unless it is one of
  \<open>boolOperators\<close>. The diagnostic line written to \<^verbatim>\<open>cerr\<close> for each binding is not
  modelled. The node for a binding is built by
  \<^verbatim>\<open>Expression(string(varName), {move(replacement)}, replacement.sort)\<close>, taken here
  with the sort read before \<open>replacement\<close> is moved from.
\<close>

fun toSMTUtilExpression ::
    "(string \<Rightarrow> 'u option) \<Rightarrow> ('u \<Rightarrow> string) \<Rightarrow> SMTLib2Expression \<Rightarrow> (string \<rightharpoonup> Sort)
      \<Rightarrow> error + Expression"
  and letBindings ::
    "(string \<Rightarrow> 'u option) \<Rightarrow> ('u \<Rightarrow> string) \<Rightarrow> SMTLib2Expression list \<Rightarrow> (string \<rightharpoonup> Sort)
      \<Rightarrow> (string \<rightharpoonup> Sort) \<Rightarrow> Expression list
      \<Rightarrow> error + ((string \<rightharpoonup> Sort) \<times> Expression list)"
  and applicationArguments ::
    "(string \<Rightarrow> 'u option) \<Rightarrow> ('u \<Rightarrow> string) \<Rightarrow> SMTLib2Expression list \<Rightarrow> (string \<rightharpoonup> Sort)
      \<Rightarrow> Expression list \<Rightarrow> error + Expression list"
where
  "toSMTUtilExpression u256 str (Atom atom) variableSorts =
     (if atom = [] then Inl UndefinedBehaviour
      else if isDigit (hd atom) \<or> hd atom = CHR ''.'' then
        (case parseRational u256 atom of
           None \<Rightarrow> Inl InvalidNumber
         | Some n \<Rightarrow> Inr (Expression (str n) [] realSort))
      else
        (case variableSorts atom of
           None \<Rightarrow> Inl OutOfRange
         | Some s \<Rightarrow> Inr (Expression atom [] s)))"
| "toSMTUtilExpression u256 str (List []) variableSorts = Inl UndefinedBehaviour"
| "toSMTUtilExpression u256 str (List (List v # rest)) variableSorts = Inl BadVariantAccess"
| "toSMTUtilExpression u256 str (List (Atom op # rest)) variableSorts =
     (if op = ''let'' then
        (case rest of
           [bindings, body] \<Rightarrow>
             (case bindings of
                Atom a \<Rightarrow> Inl BadVariantAccess
              | List bs \<Rightarrow>
                  (case letBindings u256 str bs variableSorts variableSorts [] of
                     Inl e \<Rightarrow> Inl e
                   | Inr (subSorts, arguments) \<Rightarrow>
                       (case toSMTUtilExpression u256 str body subSorts of
                          Inl e \<Rightarrow> Inl e
                        | Inr b \<Rightarrow> Inr (Expression op (arguments @ [b]) (expr_sort b)))))
         | _ \<Rightarrow> Inl (AssertionFailed []))
      else
        (case applicationArguments u256 str rest variableSorts [] of
           Inl e \<Rightarrow> Inl e
         | Inr arguments \<Rightarrow>
             if op \<in> boolOperators then Inr (Expression op arguments boolSort)
             else if arguments = [] then Inl UndefinedBehaviour
             else Inr (Expression op arguments (expr_sort (last arguments)))))"
| "letBindings u256 str [] variableSorts subSorts arguments = Inr (subSorts, arguments)"
| "letBindings u256 str (binding # bs) variableSorts subSorts arguments =
     (case binding of
        Atom a \<Rightarrow> Inl BadVariantAccess
      | List bindingElements \<Rightarrow>
          (case bindingElements of
             [n, v] \<Rightarrow>
               (case n of
                  List l \<Rightarrow> Inl BadVariantAccess
                | Atom varName \<Rightarrow>
                    (case toSMTUtilExpression u256 str v variableSorts of
                       Inl e \<Rightarrow> Inl e
                     | Inr replacement \<Rightarrow>
                         letBindings u256 str bs variableSorts
                           (subSorts(varName \<mapsto> expr_sort replacement))
                           (arguments @
                             [Expression varName [replacement] (expr_sort replacement)])))
           | _ \<Rightarrow> Inl (AssertionFailed [])))"
| "applicationArguments u256 str [] variableSorts arguments = Inr arguments"
| "applicationArguments u256 str (x # xs) variableSorts arguments =
     (case toSMTUtilExpression u256 str x variableSorts of
        Inl e \<Rightarrow> Inl e
      | Inr a \<Rightarrow> applicationArguments u256 str xs variableSorts (arguments @ [a]))"

section \<open>The driver\<close>

text \<open>
  \<^verbatim>\<open>
  string removeComments(string _input)
  {
    string result;
    auto it = _input.begin();
    auto end = _input.end();
    while (it != end)
    {
      if (*it == ';')
      {
        while (it != end && *it != '\n')
          ++it;
        if (it != end)
          ++it;
      }
      else
      {
        result.push_back(*it);
        it++;
      }
    }
    return result;
  }
  \<close>
  \<open>skipComment\<close> is the inner loop together with the step over the line feed.
\<close>

fun skipComment :: "string \<Rightarrow> string" where
  "skipComment [] = []"
| "skipComment (c # cs) = (if c \<noteq> CHR 0x0A then skipComment cs else cs)"

lemma length_skipComment: "length (skipComment (c # cs)) \<le> length cs"
proof (induction cs arbitrary: c)
  case Nil
  show ?case by simp
next
  case (Cons a cs)
  have "length (skipComment (a # cs)) \<le> length cs" by (rule Cons.IH)
  then show ?case by simp
qed

function removeComments :: "string \<Rightarrow> string" where
  "removeComments [] = []"
| "removeComments (c # cs) =
     (if c = CHR '';'' then removeComments (skipComment (c # cs))
      else c # removeComments cs)"
  by pat_completeness auto
termination
proof (relation "measure length", goal_cases)
  case 1
  show ?case by simp
next
  case (2 c cs)
  have "length (skipComment (c # cs)) \<le> length cs" by (rule length_skipComment)
  then show ?case by simp
next
  case (3 c cs)
  show ?case by simp
qed

text \<open>
  Modelled from the spec: the solver (\<^verbatim>\<open>BooleanLPSolver\<close>, \<^verbatim>\<open>CheckResult\<close>) is not among
  the sources; the spec treats it as "an opaque service" consumed through
  \<open>declareVariable(name, sort)\<close>, \<open>addAssertion(expression)\<close> and \<open>check(options)\<close>. The
  solver object is modelled by the list of the calls it has received, in order, and
  the verdict of \<open>check\<close> by a parameter \<open>verdict\<close> of the driver that maps the calls
  received so far to a \<open>CheckResult\<close>.
\<close>

datatype CheckResult = SATISFIABLE | UNSATISFIABLE | UNKNOWN | CONFLICTING | ERROR

datatype solverCall =
    declareVariable string Sort
  | addAssertion Expression
  | check

text \<open>
  The variables of \<open>main\<close> that live across iterations: the text still to be parsed, the
  global sort environment, the solver, and the lines written to \<^verbatim>\<open>cout\<close>. The trace
  written to \<^verbatim>\<open>cerr\<close> is not modelled.
\<close>

record driver =
  inputToParse :: string
  variableSorts :: "string \<rightharpoonup> Sort"
  solver :: "solverCall list"
  cout :: "string list"

text \<open>What an iteration of the loop does next: go on, or \<^verbatim>\<open>return\<close> from \<open>main\<close>.\<close>

datatype control = Continue | Return int

text \<open>
  \<^verbatim>\<open>
  string_view command(SMTLib2Expression const& _expr)
  {
    vector<SMTLib2Expression> const& items = get<vector<SMTLib2Expression>>(_expr.data);
    solAssert(!items.empty());
    solAssert(holds_alternative<string_view>(items.front().data));
    return get<string_view>(items.front().data);
  }
  \<close>
\<close>

definition command :: "SMTLib2Expression \<Rightarrow> error + string" where
  "command expr =
     (case expr of
        Atom a \<Rightarrow> Inl BadVariantAccess
      | List items \<Rightarrow>
          (case items of
             [] \<Rightarrow> Inl (AssertionFailed [])
           | List l # rest \<Rightarrow> Inl (AssertionFailed [])
           | Atom a # rest \<Rightarrow> Inr a))"

text \<open>
  The body of the loop after the parse: \<open>items\<close> is read from the node, \<open>command\<close> gives
  the name, and the chain of comparisons selects the action, in the order of the source.
\<close>

definition dispatch ::
  "(solverCall list \<Rightarrow> CheckResult) \<Rightarrow> (string \<Rightarrow> 'u option) \<Rightarrow> ('u \<Rightarrow> string)
    \<Rightarrow> SMTLib2Expression \<Rightarrow> driver \<Rightarrow> error + (control \<times> driver)"
where
  "dispatch verdict u256 str expr s =
     (case expr of
        Atom a \<Rightarrow> Inl BadVariantAccess
      | List items \<Rightarrow>
          (case command expr of
             Inl e \<Rightarrow> Inl e
           | Inr cmd \<Rightarrow>
               if cmd = ''set-info'' then Inr (Continue, s)
               else if cmd = ''declare-fun'' then
                 (if length items \<noteq> 4 then Inl (AssertionFailed [])
                  else
                    case items ! 1 of
                      List l \<Rightarrow> Inl BadVariantAccess
                    | Atom variableName \<Rightarrow>
                        (case items ! 2 of
                           Atom a \<Rightarrow> Inl BadVariantAccess
                         | List l \<Rightarrow>
                             if l \<noteq> [] then Inl (AssertionFailed [])
                             else
                               (case items ! 3 of
                                  List l' \<Rightarrow> Inl BadVariantAccess
                                | Atom type \<Rightarrow>
                                    if \<not> (type = ''Real'' \<or> type = ''Bool'')
                                    then Inl (AssertionFailed [])
                                    else
                                      (let sort = (if type = ''Real'' then realSort
                                                   else boolSort)
                                       in Inr (Continue,
                                            s\<lparr>variableSorts :=
                                                 (variableSorts s)(variableName \<mapsto> sort),
                                               solver := solver s @
                                                 [declareVariable variableName sort]\<rparr>)))))
               else if cmd = ''define-fun'' then Inr (Continue, s)
               else if cmd = ''assert'' then
                 (if length items \<noteq> 2 then Inl (AssertionFailed [])
                  else
                    case toSMTUtilExpression u256 str (items ! 1) (variableSorts s) of
                      Inl e \<Rightarrow> Inl e
                    | Inr e \<Rightarrow> Inr (Continue, s\<lparr>solver := solver s @ [addAssertion e]\<rparr>))
               else if cmd = ''set-logic'' then Inr (Continue, s)
               else if cmd = ''check-sat'' then
                 (let result = verdict (solver s)
                  in Inr (Continue,
                       s\<lparr>solver := solver s @ [check],
                          cout := cout s @
                            [if result = SATISFIABLE then ''sat''
                             else if result = UNSATISFIABLE then ''unsat''
                             else ''unknown'']\<rparr>))
               else if cmd = ''exit'' then Inr (Return 0, s)
               else Inl (AssertionFailed (''Unknown instruction: '' @ cmd))))"

lemma dispatch_Inr_List:
  "dispatch verdict u256 str expr s = Inr (c, s') \<Longrightarrow>
     (\<exists>items. expr = List items) \<and> inputToParse s' = inputToParse s"
proof (cases expr)
  case (Atom a)
  assume "dispatch verdict u256 str expr s = Inr (c, s')"
  with Atom show ?thesis by (simp add: dispatch_def)
next
  case (List items)
  assume d: "dispatch verdict u256 str expr s = Inr (c, s')"
  from d List obtain cmd where cmd: "command (List items) = Inr cmd"
    by (cases "command (List items)") (simp_all add: dispatch_def)
  have "inputToParse s' = inputToParse s"
    using d List cmd
    by (simp add: dispatch_def Let_def
          split: if_splits SMTLib2Expression.splits sum.splits) auto
  with List show ?thesis by simp
qed

lemma parseExpression_List_progress:
  assumes "parseExpression d p = (List items, p')"
  shows "p < p'"
proof -
  let ?p1 = "skipWhitespace d p"
  have ge: "p \<le> ?p1" by (rule skipWhitespace_ge)
  show ?thesis
  proof (cases "token d ?p1 = CHR ''(''")
    case True
    obtain subs p2 where sub: "parseSubExpressions d (advance ?p1) [] = (subs, p2)"
      by (cases "parseSubExpressions d (advance ?p1) []")
    have "advance ?p1 \<le> snd (parseSubExpressions d (advance ?p1) [])"
      by (rule parseSubExpressions_ge)
    with sub ge have "p < p2" by (simp add: advance_def)
    with assms True sub show ?thesis
      by (subst (asm) parseExpression.simps) (auto simp: Let_def advance_def split: if_splits)
  next
    case False
    with assms show ?thesis
      by (subst (asm) parseExpression.simps) (auto simp: Let_def split: prod.splits)
  qed
qed

text \<open>
  \<^verbatim>\<open>
  while (!inputToParse.empty())
  {
    SMTLib2Parser parser(inputToParse);
    SMTLib2Expression expr = parser.parseExpression();
    auto newInputToParse = parser.remainingInput();
    inputToParse = move(newInputToParse);
    ...
  }
  return 0;
  \<close>
  Each iteration makes a fresh parser on the text that is left. An iteration that goes on
  has parsed a list, and a list consumes at least its opening parenthesis: the loop
  terminates.
\<close>

function mainLoop ::
  "(solverCall list \<Rightarrow> CheckResult) \<Rightarrow> (string \<Rightarrow> 'u option) \<Rightarrow> ('u \<Rightarrow> string)
    \<Rightarrow> driver \<Rightarrow> error + (int \<times> driver)"
where
  "mainLoop verdict u256 str s =
     (if inputToParse s = [] then Inr (0, s)
      else
        (case parseExpression (inputToParse s) 0 of
           (expr, m_pos) \<Rightarrow>
             (case dispatch verdict u256 str expr
                     (s\<lparr>inputToParse := remainingInput (inputToParse s) m_pos\<rparr>) of
                Inl e \<Rightarrow> Inl e
              | Inr (Return rc, s') \<Rightarrow> Inr (rc, s')
              | Inr (Continue, s') \<Rightarrow> mainLoop verdict u256 str s')))"
  by pat_completeness auto
termination
proof (relation "measure (\<lambda>(v, u, st, s). length (inputToParse s))", goal_cases)
  case 1
  show ?case by simp
next
  case (2 verdict u256 str s expr m_pos b c s')
  from 2(3,4,5) have d: "dispatch verdict u256 str expr
      (s\<lparr>inputToParse := remainingInput (inputToParse s) m_pos\<rparr>) = Inr (Continue, s')"
    by simp
  from dispatch_Inr_List[OF d] obtain items where
    e: "expr = List items" and i: "inputToParse s' = remainingInput (inputToParse s) m_pos"
    by auto
  from 2(2) e have "parseExpression (inputToParse s) 0 = (List items, m_pos)" by simp
  then have "0 < m_pos" by (rule parseExpression_List_progress)
  with 2(1) i show ?case by (simp add: remainingInput_def)
qed

declare mainLoop.simps [simp del]

text \<open>
  \<open>main\<close> with its arguments \<open>argv\<close> (the program name first) and the file system as the
  function \<open>readFileAsString\<close> (libsolutil/CommonIO.h, not among the sources).
\<close>

definition main ::
  "(solverCall list \<Rightarrow> CheckResult) \<Rightarrow> (string \<Rightarrow> 'u option) \<Rightarrow> ('u \<Rightarrow> string)
    \<Rightarrow> string list \<Rightarrow> (string \<Rightarrow> string) \<Rightarrow> error + (int \<times> driver)"
where
  "main verdict u256 str argv readFileAsString =
     (if length argv \<noteq> 2 then
        Inr (- 1, \<lparr>inputToParse = [], variableSorts = Map.empty, solver = [],
                   cout = [''Usage: solsmt <smtlib2 fil>'']\<rparr>)
      else
        mainLoop verdict u256 str
          \<lparr>inputToParse = removeComments (readFileAsString (argv ! 1)),
           variableSorts = Map.empty, solver = [], cout = []\<rparr>)"

section \<open>A decimal reading of \<open>u256\<close> for concrete runs\<close>

text \<open>
  Modelled from the spec: the spec calls the number parsing of an atom "numeric parsing"
  of a literal taken as an integer ("real-numbers-as-integers"). For runs on concrete
  inputs the parameters \<open>u256\<close> and \<open>str\<close> of the elaborator are instantiated with a reader
  that accepts a non-empty text of decimal digits and rejects everything else, and with
  the decimal printer. The instance is used on small numerals only; the general
  theorems hold for every \<open>u256\<close> and \<open>str\<close>.
\<close>

definition digitValue :: "char \<Rightarrow> nat" where
  "digitValue c = of_char c - of_char CHR ''0''"

definition u256_decimal :: "string \<Rightarrow> nat option" where
  "u256_decimal s =
     (if s \<noteq> [] \<and> list_all isDigit s
      then Some (foldl (\<lambda>n c. 10 * n + digitValue c) 0 s)
      else None)"

function str_decimal :: "nat \<Rightarrow> string" where
  "str_decimal n =
     (if n < 10 then [char_of (of_char CHR ''0'' + n)]
      else str_decimal (n div 10) @ [char_of (of_char CHR ''0'' + n mod 10)])"
  by pat_completeness auto
termination
  by (relation "measure id") auto

declare str_decimal.simps [simp del]

section \<open>Specification-level descriptions\<close>

text \<open>
  "Each remaining element is elaborated against the current environment, in order":
  the elements are elaborated from left to right by the same function \<open>f\<close>, and the first
  failure is the failure of the whole.
\<close>

fun spec_elaborateInOrder :: "('a \<Rightarrow> error + 'b) \<Rightarrow> 'a list \<Rightarrow> error + 'b list" where
  "spec_elaborateInOrder f [] = Inr []"
| "spec_elaborateInOrder f (x # xs) =
     (case f x of
        Inl e \<Rightarrow> Inl e
      | Inr y \<Rightarrow> (case spec_elaborateInOrder f xs of Inl e \<Rightarrow> Inl e | Inr ys \<Rightarrow> Inr (y # ys)))"

text \<open>
  The \<open>let\<close> form as the spec words it. A well-shaped binding \<open>(x v)\<close> is the pair of the
  name and the value expression; \<open>bindingForm\<close> is its node in the parse tree. "Evaluate
  each binding's value expression against the original (pre-extension) environment, in
  left-to-right order", "extend a copy of the environment with each bound name mapped to
  the sort of its evaluated value", "elaborate the body against the extended
  environment; the let node's overall sort equals the body's sort", and the result is
  the operator \<open>let\<close> with "one binding pseudo-node per binding (named with the bound name,
  holding the bound value as its single child) followed by the elaborated body".
\<close>

definition bindingForm :: "string \<times> SMTLib2Expression \<Rightarrow> SMTLib2Expression" where
  "bindingForm b = List [Atom (fst b), snd b]"

definition spec_bindingNode :: "string \<times> Expression \<Rightarrow> Expression" where
  "spec_bindingNode b = Expression (fst b) [snd b] (expr_sort (snd b))"

definition spec_extend :: "(string \<rightharpoonup> Sort) \<Rightarrow> (string \<times> Expression) list \<Rightarrow> (string \<rightharpoonup> Sort)" where
  "spec_extend E bs = fold (\<lambda>b m. m(fst b \<mapsto> expr_sort (snd b))) bs E"

definition spec_let ::
  "(string \<Rightarrow> 'u option) \<Rightarrow> ('u \<Rightarrow> string) \<Rightarrow> (string \<times> SMTLib2Expression) list
     \<Rightarrow> SMTLib2Expression \<Rightarrow> (string \<rightharpoonup> Sort) \<Rightarrow> error + Expression"
where
  "spec_let u256 str bindings body E =
     (case spec_elaborateInOrder (\<lambda>b. toSMTUtilExpression u256 str (snd b) E) bindings of
        Inl e \<Rightarrow> Inl e
      | Inr values \<Rightarrow>
          (case toSMTUtilExpression u256 str body
                  (spec_extend E (zip (map fst bindings) values)) of
             Inl e \<Rightarrow> Inl e
           | Inr b \<Rightarrow>
               Inr (Expression ''let''
                     (map spec_bindingNode (zip (map fst bindings) values) @ [b])
                     (expr_sort b))))"

text \<open>
  The reading of a numeric atom as the claim words it: "stripping a trailing \<open>.0\<close> suffix,
  when present", once.
\<close>

definition spec_stripDotZeroOnce :: "string \<Rightarrow> string" where
  "spec_stripDotZeroOnce atom =
     (if suffix ''.0'' atom then take (length atom - 2) atom else atom)"

text \<open>
  Two ways to read a sequence of \<open>n\<close> expressions from a text. \<open>parseMany\<close> keeps one parser
  object and calls \<open>parseExpression\<close> on it \<open>n\<close> times: a single pass over the text.
  \<open>parseRestarting\<close> does what the loop of \<open>main\<close> does: after each expression it takes
  \<open>remainingInput\<close> and makes a fresh parser on it.
\<close>

fun parseMany :: "nat \<Rightarrow> string \<Rightarrow> nat \<Rightarrow> SMTLib2Expression list \<times> nat" where
  "parseMany 0 m_data m_pos = ([], m_pos)"
| "parseMany (Suc n) m_data m_pos =
     (case parseExpression m_data m_pos of
        (e, p1) \<Rightarrow> (case parseMany n m_data p1 of (es, p2) \<Rightarrow> (e # es, p2)))"

fun parseRestarting :: "nat \<Rightarrow> string \<Rightarrow> SMTLib2Expression list \<times> string" where
  "parseRestarting 0 input = ([], input)"
| "parseRestarting (Suc n) input =
     (case parseExpression input 0 of
        (e, p1) \<Rightarrow>
          (case parseRestarting n (remainingInput input p1) of (es, r) \<Rightarrow> (e # es, r)))"

section \<open>Applications of an operator\<close>

lemma applicationArguments_spec:
  "applicationArguments u256 str xs E acc =
     (case spec_elaborateInOrder (\<lambda>x. toSMTUtilExpression u256 str x E) xs of
        Inl e \<Rightarrow> Inl e
      | Inr ys \<Rightarrow> Inr (acc @ ys))"
  by (induction xs arbitrary: acc) (auto split: sum.splits)

text \<open>
  Claim C2. For a list headed by an operator atom other than \<open>let\<close>, the remaining
  elements are elaborated in order, each against the environment \<open>E\<close> the list is
  elaborated in; the result carries the operator as its name and the elaborated
  elements as its arguments, and its sort is \<open>boolSort\<close> when the operator is one of
  \<open>boolOperators\<close> and the sort of the last elaborated argument otherwise. (With no
  argument and an operator outside \<open>boolOperators\<close> there is no last argument to read.)
\<close>

theorem C2_application:
  "op \<noteq> ''let'' \<Longrightarrow>
   toSMTUtilExpression u256 str (List (Atom op # rest)) E =
     (case spec_elaborateInOrder (\<lambda>x. toSMTUtilExpression u256 str x E) rest of
        Inl e \<Rightarrow> Inl e
      | Inr arguments \<Rightarrow>
          if op \<in> boolOperators then Inr (Expression op arguments boolSort)
          else if arguments = [] then Inl UndefinedBehaviour
          else Inr (Expression op arguments (expr_sort (last arguments))))"
  by (simp add: applicationArguments_spec split: sum.splits)

theorem C2_application_witness:
  "''+'' \<noteq> ''let'' \<and>
   toSMTUtilExpression u256_decimal str_decimal
       (List [Atom ''+'', Atom ''x'', Atom ''1'']) [''x'' \<mapsto> boolSort] =
     Inr (Expression ''+'' [Expression ''x'' [] boolSort, Expression ''1'' [] realSort] realSort)
   \<and> toSMTUtilExpression u256_decimal str_decimal
       (List [Atom ''<'', Atom ''x'', Atom ''1'']) [''x'' \<mapsto> realSort] =
     Inr (Expression ''<'' [Expression ''x'' [] realSort, Expression ''1'' [] realSort] boolSort)"
proof -
  have n: "''+'' \<noteq> ''let''" "''<'' \<noteq> ''let''" by simp_all
  have a: "toSMTUtilExpression u256_decimal str_decimal (Atom ''x'') [''x'' \<mapsto> s]
      = Inr (Expression ''x'' [] s)" for s
    by (simp add: isDigit_def)
  have b: "toSMTUtilExpression u256_decimal str_decimal (Atom ''1'') E
      = Inr (Expression ''1'' [] realSort)" for E
    by code_simp
  have c: "''+'' \<notin> boolOperators" "''<'' \<in> boolOperators"
    by (simp_all add: boolOperators_def)
  show ?thesis
    using C2_application[OF n(1), of u256_decimal str_decimal "[Atom ''x'', Atom ''1'']"
            "[''x'' \<mapsto> boolSort]"]
      C2_application[OF n(2), of u256_decimal str_decimal "[Atom ''x'', Atom ''1'']"
            "[''x'' \<mapsto> realSort]"]
    by (simp add: a b c del: toSMTUtilExpression.simps)
qed

section \<open>The \<open>let\<close> form\<close>

lemma letBindings_spec:
  "letBindings u256 str (map bindingForm bs) E subSorts acc =
     (case spec_elaborateInOrder (\<lambda>b. toSMTUtilExpression u256 str (snd b) E) bs of
        Inl e \<Rightarrow> Inl e
      | Inr vs \<Rightarrow>
          Inr (spec_extend subSorts (zip (map fst bs) vs),
               acc @ map spec_bindingNode (zip (map fst bs) vs)))"
proof (induction bs arbitrary: subSorts acc)
  case Nil
  show ?case by (simp add: spec_extend_def)
next
  case (Cons b bs)
  have hd: "map bindingForm (b # bs) = List [Atom (fst b), snd b] # map bindingForm bs"
    by (simp add: bindingForm_def)
  show ?case
  proof (cases "toSMTUtilExpression u256 str (snd b) E")
    case (Inl e)
    then show ?thesis unfolding hd by simp
  next
    case (Inr v)
    show ?thesis unfolding hd
      by (simp add: Inr Cons.IH spec_extend_def spec_bindingNode_def split: sum.splits)
  qed
qed

text \<open>
  Claim C1. Elaborating \<open>(let ((x1 v1) ... (xn vn)) body)\<close> in the environment \<open>E\<close>
  elaborates every value \<open>vi\<close> against \<open>E\<close> itself and only the body against \<open>E\<close> extended
  with the bound names, each mapped to the sort of its elaborated value. So in
  \<open>(let ((x 1) (y x)) y)\<close> the value of \<open>y\<close> is looked up in \<open>E\<close>: when \<open>x\<close> is absent from
  \<open>E\<close> the elaboration fails, at the lookup of \<open>x\<close> where \<^verbatim>\<open>map::at\<close> throws (or before
  it, should \<open>u256\<close> reject the numeral 1).
\<close>

theorem C1_let:
  "toSMTUtilExpression u256 str (List [Atom ''let'', List (map bindingForm bs), body]) E =
     spec_let u256 str bs body E
   \<and> (E ''x'' = None \<longrightarrow>
        toSMTUtilExpression u256 str
          (List [Atom ''let'',
                 List [List [Atom ''x'', Atom ''1''], List [Atom ''y'', Atom ''x'']],
                 Atom ''y'']) E =
          (case u256 ''1'' of None \<Rightarrow> Inl InvalidNumber | Some one \<Rightarrow> Inl OutOfRange))"
proof
  show "toSMTUtilExpression u256 str (List [Atom ''let'', List (map bindingForm bs), body]) E =
     spec_let u256 str bs body E"
    by (simp add: letBindings_spec spec_let_def split: sum.splits)
next
  have p: "parseRational u256 ''1'' = u256 ''1''"
    by (simp add: parseRational.simps)
  show "E ''x'' = None \<longrightarrow>
        toSMTUtilExpression u256 str
          (List [Atom ''let'',
                 List [List [Atom ''x'', Atom ''1''], List [Atom ''y'', Atom ''x'']],
                 Atom ''y'']) E =
          (case u256 ''1'' of None \<Rightarrow> Inl InvalidNumber | Some one \<Rightarrow> Inl OutOfRange)"
    by (simp add: p isDigit_def split: option.splits)
qed

theorem C1_let_witness:
  "[''b'' \<mapsto> boolSort] ''x'' = None \<and>
   toSMTUtilExpression u256_decimal str_decimal
          (List [Atom ''let'',
                 List [List [Atom ''x'', Atom ''1''], List [Atom ''y'', Atom ''x'']],
                 Atom ''y'']) [''b'' \<mapsto> boolSort] = Inl OutOfRange
   \<and> toSMTUtilExpression u256_decimal str_decimal
          (List [Atom ''let'',
                 List [List [Atom ''x'', Atom ''1''], List [Atom ''y'', Atom ''b'']],
                 List [Atom ''f'', Atom ''y'', Atom ''x'']]) [''b'' \<mapsto> boolSort] =
       Inr (Expression ''let''
             [Expression ''x'' [Expression ''1'' [] realSort] realSort,
              Expression ''y'' [Expression ''b'' [] boolSort] boolSort,
              Expression ''f'' [Expression ''y'' [] boolSort, Expression ''x'' [] realSort] realSort]
             realSort)"
proof -
  have u: "u256_decimal ''1'' = Some 1"
    by (simp add: u256_decimal_def isDigit_def digitValue_def)
  have e: "[''b'' \<mapsto> boolSort] ''x'' = None" by simp
  have s: "spec_let u256_decimal str_decimal
             [(''x'', Atom ''1''), (''y'', Atom ''b'')]
             (List [Atom ''f'', Atom ''y'', Atom ''x'']) [''b'' \<mapsto> boolSort] =
       Inr (Expression ''let''
             [Expression ''x'' [Expression ''1'' [] realSort] realSort,
              Expression ''y'' [Expression ''b'' [] boolSort] boolSort,
              Expression ''f'' [Expression ''y'' [] boolSort, Expression ''x'' [] realSort] realSort]
             realSort)"
    by code_simp
  have m: "map bindingForm [(''x'', Atom ''1''), (''y'', Atom ''b'')] =
           [List [Atom ''x'', Atom ''1''], List [Atom ''y'', Atom ''b'']]"
    by (simp add: bindingForm_def)
  from C1_let[of u256_decimal str_decimal "[(''x'', Atom ''1''), (''y'', Atom ''b'')]"
         "List [Atom ''f'', Atom ''y'', Atom ''x'']" "[''b'' \<mapsto> boolSort]"]
  show ?thesis unfolding m s u using e by simp
qed

section \<open>Numeric atoms\<close>

lemma suffix_dot_zero_iff:
  "suffix ''.0'' a \<longleftrightarrow>
     length a \<ge> 2 \<and> a ! (length a - 2) = CHR ''.'' \<and> a ! (length a - 1) = CHR ''0''"
proof
  assume "suffix ''.0'' a"
  then obtain zs where a: "a = zs @ ''.0''" by (auto simp: suffix_def)
  show "length a \<ge> 2 \<and> a ! (length a - 2) = CHR ''.'' \<and> a ! (length a - 1) = CHR ''0''"
    unfolding a by (simp add: nth_append)
next
  assume h: "length a \<ge> 2 \<and> a ! (length a - 2) = CHR ''.'' \<and> a ! (length a - 1) = CHR ''0''"
  let ?n = "length a - 2"
  from h have l: "2 \<le> length a" by simp
  then have s: "Suc ?n = length a - 1" and s2: "Suc (Suc ?n) = length a" by arith+
  have "drop ?n a = a ! ?n # drop (Suc ?n) a"
    using l by (intro Cons_nth_drop_Suc[symmetric]) arith
  also have "drop (Suc ?n) a = a ! Suc ?n # drop (Suc (Suc ?n)) a"
    using l by (intro Cons_nth_drop_Suc[symmetric]) arith
  also have "drop (Suc (Suc ?n)) a = []" unfolding s2 by simp
  finally have "drop ?n a = [a ! ?n, a ! (length a - 1)]" unfolding s .
  with h have "drop ?n a = ''.0''" by simp
  then have "a = take ?n a @ ''.0''" by (metis append_take_drop_id)
  then show "suffix ''.0'' a" by (metis suffixI)
qed

lemma concat_replicate_Suc_right:
  "concat (replicate (Suc k) s) = concat (replicate k s) @ s"
proof -
  have "replicate (Suc k) s = replicate k s @ [s]"
    by (simp add: replicate_append_same)
  then show ?thesis by (simp del: replicate_Suc replicate.simps)
qed

lemma parseRational_strips:
  "\<exists>k rest. atom = rest @ concat (replicate k ''.0'') \<and> (k = 0 \<or> rest \<noteq> []) \<and>
      (length rest < 3 \<or> \<not> suffix ''.0'' rest) \<and> parseRational u256 atom = u256 rest"
proof (induction u256 atom rule: parseRational.induct)
  case (1 u256 atom)
  let ?c = "length atom \<ge> 3 \<and> atom ! (length atom - 1) = CHR ''0''
         \<and> atom ! (length atom - 2) = CHR ''.''"
  show ?case
  proof (cases ?c)
    case True
    let ?a = "substr atom 0 (length atom - 2)"
    from "1.IH"[OF True] obtain k rest where
      r: "?a = rest @ concat (replicate k ''.0'')" "k = 0 \<or> rest \<noteq> []"
         "length rest < 3 \<or> \<not> suffix ''.0'' rest" "parseRational u256 ?a = u256 rest"
      by blast
    from True have "suffix ''.0'' atom" by (simp add: suffix_dot_zero_iff)
    then obtain zs where zs: "atom = zs @ ''.0''" by (auto simp: suffix_def)
    then have a: "?a = zs" by (simp add: substr_def)
    have ne: "zs \<noteq> []" using True zs by auto
    have "atom = rest @ concat (replicate (Suc k) ''.0'')"
      using zs r(1) a by (simp only: concat_replicate_Suc_right) simp
    moreover have "rest \<noteq> []" using r(1,2) a ne by auto
    moreover have "parseRational u256 atom = u256 rest"
      using True r(4) by (subst parseRational.simps) simp
    ultimately show ?thesis using r(3) by blast
  next
    case False
    then have "length atom < 3 \<or> \<not> suffix ''.0'' atom"
      by (auto simp: suffix_dot_zero_iff)
    moreover have "parseRational u256 atom = u256 atom"
      using False by (subst parseRational.simps) auto
    ultimately have "atom = atom @ concat (replicate 0 ''.0'') \<and> (0 = (0::nat) \<or> atom \<noteq> []) \<and>
      (length atom < 3 \<or> \<not> suffix ''.0'' atom) \<and> parseRational u256 atom = u256 atom"
      by simp
    then show ?thesis by blast
  qed
qed

text \<open>
  Claim C3, as the code has it. For an atom whose first character is a digit or a dot,
  the elaborator removes trailing \<open>.0\<close> suffixes repeatedly, each one only while the text
  still has at least three characters, and hands what is left, \<open>rest\<close>, to \<open>u256\<close>: when
  \<open>u256\<close> accepts it the result is the literal of sort \<open>realSort\<close> whose name is the printed
  number, and when \<open>u256\<close> rejects it the elaboration fails. The atoms \<open>1.0\<close> and \<open>1\<close>
  elaborate to the same result.
\<close>

theorem C3_numeric_atom:
  "atom \<noteq> [] \<Longrightarrow> isDigit (hd atom) \<or> hd atom = CHR ''.'' \<Longrightarrow>
   (\<exists>k rest. atom = rest @ concat (replicate k ''.0'') \<and> (k = 0 \<or> rest \<noteq> []) \<and>
      (length rest < 3 \<or> \<not> suffix ''.0'' rest) \<and>
      toSMTUtilExpression u256 str (Atom atom) E =
        (case u256 rest of
           None \<Rightarrow> Inl InvalidNumber
         | Some n \<Rightarrow> Inr (Expression (str n) [] realSort)))
   \<and> toSMTUtilExpression u256 str (Atom ''1.0'') E = toSMTUtilExpression u256 str (Atom ''1'') E"
proof
  assume h: "atom \<noteq> []" "isDigit (hd atom) \<or> hd atom = CHR ''.''"
  from parseRational_strips[of atom u256] obtain k rest where
    r: "atom = rest @ concat (replicate k ''.0'')" "k = 0 \<or> rest \<noteq> []"
       "length rest < 3 \<or> \<not> suffix ''.0'' rest" "parseRational u256 atom = u256 rest"
    by blast
  have "toSMTUtilExpression u256 str (Atom atom) E =
        (case u256 rest of
           None \<Rightarrow> Inl InvalidNumber
         | Some n \<Rightarrow> Inr (Expression (str n) [] realSort))"
    using h r(4) by auto
  with r(1,2,3) show "\<exists>k rest. atom = rest @ concat (replicate k ''.0'') \<and> (k = 0 \<or> rest \<noteq> []) \<and>
      (length rest < 3 \<or> \<not> suffix ''.0'' rest) \<and>
      toSMTUtilExpression u256 str (Atom atom) E =
        (case u256 rest of
           None \<Rightarrow> Inl InvalidNumber
         | Some n \<Rightarrow> Inr (Expression (str n) [] realSort))"
    by blast
next
  have "parseRational u256 ''1.0'' = parseRational u256 ''1''"
    by (subst parseRational.simps) (simp add: substr_def)
  then show "toSMTUtilExpression u256 str (Atom ''1.0'') E = toSMTUtilExpression u256 str (Atom ''1'') E"
    by (simp add: isDigit_def)
qed

theorem C3_numeric_atom_witness:
  "''1.0.0'' \<noteq> [] \<and> (isDigit (hd ''1.0.0'') \<or> hd ''1.0.0'' = CHR ''.'') \<and>
   (\<exists>k rest. ''1.0.0'' = rest @ concat (replicate k ''.0'') \<and> (k = 0 \<or> rest \<noteq> []) \<and>
      (length rest < 3 \<or> \<not> suffix ''.0'' rest) \<and>
      toSMTUtilExpression u256_decimal str_decimal (Atom ''1.0.0'') Map.empty =
        (case u256_decimal rest of
           None \<Rightarrow> Inl InvalidNumber
         | Some n \<Rightarrow> Inr (Expression (str_decimal n) [] realSort)))
   \<and> toSMTUtilExpression u256_decimal str_decimal (Atom ''1.0'') Map.empty =
       Inr (Expression ''1'' [] realSort)"
proof -
  have a: "''1.0.0'' \<noteq> []" by simp
  have b: "isDigit (hd ''1.0.0'') \<or> hd ''1.0.0'' = CHR ''.''" by (simp add: isDigit_def)
  have c: "toSMTUtilExpression u256_decimal str_decimal (Atom ''1'') Map.empty =
       Inr (Expression ''1'' [] realSort)"
    by code_simp
  from C3_numeric_atom[OF a b, of u256_decimal str_decimal Map.empty] a b c
  show ?thesis by (simp del: toSMTUtilExpression.simps)
qed

text \<open>
  Claim C3 as it is worded does not hold. \<open>1.0.0\<close> elaborates to the literal 1, although
  stripping one \<open>.0\<close> leaves \<open>1.0\<close>, which is not an integer; \<open>1.5\<close> begins with a digit and
  elaborates to no literal at all; and for \<open>.0\<close> the text that reaches the constructor is
  \<open>.0\<close> itself, not the empty text that stripping the suffix would leave (seen with the
  reader that accepts every text and prints it back).
\<close>

theorem C3_counterexample:
  "toSMTUtilExpression u256_decimal str_decimal (Atom ''1.0.0'') Map.empty =
     Inr (Expression ''1'' [] realSort) \<and>
   u256_decimal (spec_stripDotZeroOnce ''1.0.0'') = None \<and>
   toSMTUtilExpression u256_decimal str_decimal (Atom ''1.5'') Map.empty = Inl InvalidNumber \<and>
   toSMTUtilExpression Some (\<lambda>n. n) (Atom ''.0'') Map.empty =
     Inr (Expression ''.0'' [] realSort) \<and>
   spec_stripDotZeroOnce ''.0'' = []"
  by code_simp

section \<open>The driver loop\<close>

lemma mainLoop_step:
  "inputToParse s \<noteq> [] \<Longrightarrow> parseExpression (inputToParse s) 0 = (expr, p) \<Longrightarrow>
   mainLoop verdict u256 str s =
     (case dispatch verdict u256 str expr (s\<lparr>inputToParse := drop p (inputToParse s)\<rparr>) of
        Inl e \<Rightarrow> Inl e
      | Inr (Return rc, s') \<Rightarrow> Inr (rc, s')
      | Inr (Continue, s') \<Rightarrow> mainLoop verdict u256 str s')"
  by (subst mainLoop.simps) (simp add: remainingInput_def)

lemma mainLoop_empty: "inputToParse s = [] \<Longrightarrow> mainLoop verdict u256 str s = Inr (0, s)"
  by (subst mainLoop.simps) simp

lemma dispatch_Atom: "dispatch verdict u256 str (Atom a) s = Inl BadVariantAccess"
  by (simp add: dispatch_def)

lemma length3: "length xs = 3 \<Longrightarrow> \<exists>a b c. xs = [a, b, c]"
  by (auto simp: length_Suc_conv numeral_3_eq_3)

lemma dispatch_declare_fun_ok:
  "ty = ''Real'' \<or> ty = ''Bool'' \<Longrightarrow>
   dispatch verdict u256 str (List [Atom ''declare-fun'', Atom name, List [], Atom ty]) s =
     Inr (Continue,
          s\<lparr>variableSorts :=
               (variableSorts s)(name \<mapsto> (if ty = ''Real'' then realSort else boolSort)),
            solver := solver s @
               [declareVariable name (if ty = ''Real'' then realSort else boolSort)]\<rparr>)"
  by (auto simp: dispatch_def command_def)

lemma dispatch_declare_fun_shape:
  assumes "dispatch verdict u256 str (List (Atom ''declare-fun'' # rest)) s = Inr r"
  shows "\<exists>name ty. rest = [Atom name, List [], Atom ty] \<and> (ty = ''Real'' \<or> ty = ''Bool'')"
proof -
  from assms have l: "length rest = 3"
    by (simp add: dispatch_def command_def split: if_splits)
  then obtain a b c where r: "rest = [a, b, c]" using length3 by blast
  from assms show ?thesis unfolding r
    by (cases a; cases b; cases c)
       (auto simp: dispatch_def command_def split: if_splits)
qed

text \<open>
  Claim C7. A top-level form headed by \<open>declare-fun\<close> is dispatched with success only
  when it has exactly four elements, the second an atom (the name), the third the empty
  list and the fourth the atom \<open>Real\<close> or \<open>Bool\<close>; every other shape is a failure that
  ends the run. On success the name is mapped to the sort in the global environment and
  the solver receives exactly one \<open>declareVariable\<close> with that name and sort; nothing
  else changes.
\<close>

theorem C7_declare_fun:
  "(ty = ''Real'' \<or> ty = ''Bool'' \<longrightarrow>
     dispatch verdict u256 str (List [Atom ''declare-fun'', Atom name, List [], Atom ty]) s =
       Inr (Continue,
            s\<lparr>variableSorts :=
                 (variableSorts s)(name \<mapsto> (if ty = ''Real'' then realSort else boolSort)),
              solver := solver s @
                 [declareVariable name (if ty = ''Real'' then realSort else boolSort)]\<rparr>))
   \<and> ((\<exists>n t. rest = [Atom n, List [], Atom t] \<and> (t = ''Real'' \<or> t = ''Bool''))
        \<or> (\<exists>e. dispatch verdict u256 str (List (Atom ''declare-fun'' # rest)) s = Inl e))"
proof
  show "ty = ''Real'' \<or> ty = ''Bool'' \<longrightarrow>
     dispatch verdict u256 str (List [Atom ''declare-fun'', Atom name, List [], Atom ty]) s =
       Inr (Continue,
            s\<lparr>variableSorts :=
                 (variableSorts s)(name \<mapsto> (if ty = ''Real'' then realSort else boolSort)),
              solver := solver s @
                 [declareVariable name (if ty = ''Real'' then realSort else boolSort)]\<rparr>)"
    using dispatch_declare_fun_ok by blast
next
  show "(\<exists>n t. rest = [Atom n, List [], Atom t] \<and> (t = ''Real'' \<or> t = ''Bool''))
        \<or> (\<exists>e. dispatch verdict u256 str (List (Atom ''declare-fun'' # rest)) s = Inl e)"
  proof (cases "dispatch verdict u256 str (List (Atom ''declare-fun'' # rest)) s")
    case (Inl e)
    then show ?thesis by blast
  next
    case (Inr r)
    then show ?thesis using dispatch_declare_fun_shape by blast
  qed
qed

theorem C7_declare_fun_witness:
  "(''Real'' = ''Real'' \<or> ''Real'' = ''Bool'') \<and>
   dispatch (\<lambda>c. UNKNOWN) u256_decimal str_decimal
       (List [Atom ''declare-fun'', Atom ''x'', List [], Atom ''Real''])
       \<lparr>inputToParse = [], variableSorts = Map.empty, solver = [], cout = []\<rparr> =
     Inr (Continue,
          \<lparr>inputToParse = [], variableSorts = [''x'' \<mapsto> realSort],
           solver = [declareVariable ''x'' realSort], cout = []\<rparr>)
   \<and> (\<exists>e. dispatch (\<lambda>c. UNKNOWN) u256_decimal str_decimal
       (List (Atom ''declare-fun'' # [Atom ''x'', List [Atom ''y''], Atom ''Real'']))
       \<lparr>inputToParse = [], variableSorts = Map.empty, solver = [], cout = []\<rparr> = Inl e)"
proof -
  let ?s = "\<lparr>inputToParse = [], variableSorts = (Map.empty :: string \<rightharpoonup> Sort),
             solver = [], cout = []\<rparr>"
  have t: "''Real'' = ''Real'' \<or> ''Real'' = ''Bool''" by simp
  have n: "\<not> (\<exists>n t. [Atom ''x'', List [Atom ''y''], Atom ''Real''] = [Atom n, List [], Atom t]
            \<and> (t = ''Real'' \<or> t = ''Bool''))"
    by simp
  from C7_declare_fun[of "''Real''" "\<lambda>c. UNKNOWN" u256_decimal str_decimal "''x''" ?s
         "[Atom ''x'', List [Atom ''y''], Atom ''Real'']"] t n
  show ?thesis by simp
qed

text \<open>
  Claim C8. When the form parsed in an iteration is headed by \<open>exit\<close>, the run ends with
  exit code 0 there: the solver has received no further call, nothing more was
  printed, the environment is as it was, and the text after the form is left unparsed.
\<close>

theorem C8_exit:
  "inputToParse s \<noteq> [] \<Longrightarrow>
   parseExpression (inputToParse s) 0 = (List (Atom ''exit'' # args), p) \<Longrightarrow>
   mainLoop verdict u256 str s =
     Inr (0, s\<lparr>inputToParse := remainingInput (inputToParse s) p\<rparr>)"
  by (simp add: mainLoop_step dispatch_def command_def remainingInput_def)

theorem C8_exit_witness:
  "''(exit)(check-sat)'' \<noteq> [] \<and>
   parseExpression ''(exit)(check-sat)'' 0 = (List (Atom ''exit'' # []), 6) \<and>
   mainLoop (\<lambda>c. SATISFIABLE) u256_decimal str_decimal
     \<lparr>inputToParse = ''(exit)(check-sat)'', variableSorts = Map.empty, solver = [], cout = []\<rparr> =
     Inr (0, \<lparr>inputToParse = ''(check-sat)'', variableSorts = Map.empty, solver = [],
               cout = []\<rparr>)"
proof -
  let ?s = "\<lparr>inputToParse = ''(exit)(check-sat)'', variableSorts = (Map.empty :: string \<rightharpoonup> Sort),
             solver = [], cout = []\<rparr>"
  have a: "inputToParse ?s \<noteq> []" by simp
  have b: "parseExpression ''(exit)(check-sat)'' 0 = (List (Atom ''exit'' # []), 6)"
    by code_simp
  then have b': "parseExpression (inputToParse ?s) 0 = (List (Atom ''exit'' # []), 6)" by simp
  from C8_exit[OF a b', of "\<lambda>c. SATISFIABLE" u256_decimal str_decimal] b
  show ?thesis by (simp add: remainingInput_def)
qed

section \<open>The sort environment\<close>

lemma dispatch_assert:
  "dispatch verdict u256 str (List [Atom ''assert'', e]) s =
     (case toSMTUtilExpression u256 str e (variableSorts s) of
        Inl err \<Rightarrow> Inl err
      | Inr x \<Rightarrow> Inr (Continue, s\<lparr>solver := solver s @ [addAssertion x]\<rparr>))"
  by (simp add: dispatch_def command_def)

lemma dispatch_variableSorts:
  assumes "dispatch verdict u256 str expr s = Inr (c, s')"
  shows "variableSorts s' = variableSorts s \<or>
         (\<exists>name ty. expr = List [Atom ''declare-fun'', Atom name, List [], Atom ty] \<and>
            variableSorts s' =
              (variableSorts s)(name \<mapsto> (if ty = ''Real'' then realSort else boolSort)))"
proof -
  from dispatch_Inr_List[OF assms] obtain items where e: "expr = List items" by blast
  from assms e obtain cmd where cmd: "command (List items) = Inr cmd"
    by (cases "command (List items)") (simp_all add: dispatch_def)
  then obtain rest where items: "items = Atom cmd # rest"
    by (auto simp: command_def split: list.splits SMTLib2Expression.splits)
  show ?thesis
  proof (cases "cmd = ''declare-fun''")
    case True
    from assms have d: "dispatch verdict u256 str (List (Atom ''declare-fun'' # rest)) s = Inr (c, s')"
      unfolding e items True .
    from dispatch_declare_fun_shape[OF d] obtain name ty where
      r: "rest = [Atom name, List [], Atom ty]" "ty = ''Real'' \<or> ty = ''Bool''"
      by blast
    from d dispatch_declare_fun_ok[OF r(2), of verdict u256 str name s]
    have "variableSorts s' =
              (variableSorts s)(name \<mapsto> (if ty = ''Real'' then realSort else boolSort))"
      unfolding r(1) by auto
    then show ?thesis unfolding e items True r(1) by blast
  next
    case False
    from assms have "variableSorts s' = variableSorts s"
      unfolding e using cmd False
      by (auto simp: dispatch_def Let_def split: if_splits sum.splits)
    then show ?thesis by simp
  qed
qed

text \<open>
  Claim C9. The elaborator reads the environment it is given and returns an expression
  only; a \<open>let\<close> extends a copy that is gone when the elaboration returns. So an \<open>assert\<close>
  whose expression elaborates leaves the driver with the environment it had (only the
  solver has received the assertion), and the one dispatch after which the global
  environment differs is a \<open>declare-fun\<close>, which maps the declared name to its sort. Inside
  an expression too, the element after a \<open>let\<close> that has been elaborated is elaborated
  against the environment \<open>E\<close> of the enclosing list, without the names the \<open>let\<close> bound.
\<close>

theorem C9_environment_frame:
  "(dispatch verdict u256 str expr s = Inr (c, s') \<longrightarrow>
      variableSorts s' = variableSorts s \<or>
      (\<exists>name ty. expr = List [Atom ''declare-fun'', Atom name, List [], Atom ty] \<and>
         variableSorts s' =
           (variableSorts s)(name \<mapsto> (if ty = ''Real'' then realSort else boolSort))))
   \<and> (toSMTUtilExpression u256 str e (variableSorts s) = Inr x \<longrightarrow>
        dispatch verdict u256 str (List [Atom ''assert'', e]) s =
          Inr (Continue, s\<lparr>solver := solver s @ [addAssertion x]\<rparr>))
   \<and> (op \<noteq> ''let'' \<longrightarrow>
        toSMTUtilExpression u256 str (List [Atom ''let'', List bs, body]) E = Inr r \<longrightarrow>
        toSMTUtilExpression u256 str
            (List [Atom op, List [Atom ''let'', List bs, body], a]) E =
          (case toSMTUtilExpression u256 str a E of
             Inl err \<Rightarrow> Inl err
           | Inr y \<Rightarrow>
               Inr (Expression op [r, y]
                     (if op \<in> boolOperators then boolSort else expr_sort y))))"
proof (intro conjI impI)
  assume "dispatch verdict u256 str expr s = Inr (c, s')"
  then show "variableSorts s' = variableSorts s \<or>
      (\<exists>name ty. expr = List [Atom ''declare-fun'', Atom name, List [], Atom ty] \<and>
         variableSorts s' =
           (variableSorts s)(name \<mapsto> (if ty = ''Real'' then realSort else boolSort)))"
    by (rule dispatch_variableSorts)
next
  assume "toSMTUtilExpression u256 str e (variableSorts s) = Inr x"
  then show "dispatch verdict u256 str (List [Atom ''assert'', e]) s =
          Inr (Continue, s\<lparr>solver := solver s @ [addAssertion x]\<rparr>)"
    by (simp add: dispatch_assert)
next
  assume o: "op \<noteq> ''let''"
    and l: "toSMTUtilExpression u256 str (List [Atom ''let'', List bs, body]) E = Inr r"
  have "toSMTUtilExpression u256 str (List [Atom op, List [Atom ''let'', List bs, body], a]) E =
      (case applicationArguments u256 str [List [Atom ''let'', List bs, body], a] E [] of
           Inl e \<Rightarrow> Inl e
         | Inr arguments \<Rightarrow>
             if op \<in> boolOperators then Inr (Expression op arguments boolSort)
             else if arguments = [] then Inl UndefinedBehaviour
             else Inr (Expression op arguments (expr_sort (last arguments))))"
    using o by simp
  also have "applicationArguments u256 str [List [Atom ''let'', List bs, body], a] E [] =
      (case toSMTUtilExpression u256 str a E of Inl err \<Rightarrow> Inl err | Inr y \<Rightarrow> Inr [r, y])"
    using l by (simp del: toSMTUtilExpression.simps split: sum.splits)
  finally show "toSMTUtilExpression u256 str
            (List [Atom op, List [Atom ''let'', List bs, body], a]) E =
          (case toSMTUtilExpression u256 str a E of
             Inl err \<Rightarrow> Inl err
           | Inr y \<Rightarrow>
               Inr (Expression op [r, y]
                     (if op \<in> boolOperators then boolSort else expr_sort y)))"
    by (simp del: toSMTUtilExpression.simps split: sum.splits)
qed

theorem C9_environment_frame_witness:
  "dispatch (\<lambda>c. UNKNOWN) u256_decimal str_decimal
      (List [Atom ''assert'', List [Atom ''let'', List [List [Atom ''x'', Atom ''1'']], Atom ''x'']])
      \<lparr>inputToParse = [], variableSorts = [''y'' \<mapsto> boolSort], solver = [], cout = []\<rparr> =
    Inr (Continue,
      \<lparr>inputToParse = [], variableSorts = [''y'' \<mapsto> boolSort],
       solver = [addAssertion (Expression ''let''
                   [Expression ''x'' [Expression ''1'' [] realSort] realSort,
                    Expression ''x'' [] realSort] realSort)],
       cout = []\<rparr>)
   \<and> ''f'' \<noteq> ''let''
   \<and> toSMTUtilExpression u256_decimal str_decimal
        (List [Atom ''let'', List [List [Atom ''x'', Atom ''1'']], Atom ''x''])
        [''y'' \<mapsto> boolSort] =
       Inr (Expression ''let''
                   [Expression ''x'' [Expression ''1'' [] realSort] realSort,
                    Expression ''x'' [] realSort] realSort)
   \<and> toSMTUtilExpression u256_decimal str_decimal
        (List [Atom ''f'', List [Atom ''let'', List [List [Atom ''x'', Atom ''1'']], Atom ''x''],
               Atom ''x''])
        [''y'' \<mapsto> boolSort] = Inl OutOfRange"
proof -
  let ?s = "\<lparr>inputToParse = [], variableSorts = [''y'' \<mapsto> boolSort], solver = [], cout = []\<rparr>"
  let ?e = "List [Atom ''let'', List [List [Atom ''x'', Atom ''1'']], Atom ''x'']"
  let ?x = "Expression ''let''
                   [Expression ''x'' [Expression ''1'' [] realSort] realSort,
                    Expression ''x'' [] realSort] realSort"
  have a: "toSMTUtilExpression u256_decimal str_decimal ?e [''y'' \<mapsto> boolSort] = Inr ?x"
    by code_simp
  then have a': "toSMTUtilExpression u256_decimal str_decimal ?e (variableSorts ?s) = Inr ?x"
    by simp
  have f: "''f'' \<noteq> ''let''" by simp
  have x: "toSMTUtilExpression u256_decimal str_decimal (Atom ''x'') [''y'' \<mapsto> boolSort] =
           Inl OutOfRange"
    by (simp add: isDigit_def)
  let ?s' = "?s\<lparr>solver := solver ?s @ [addAssertion ?x]\<rparr>"
  from C9_environment_frame[of "\<lambda>c. UNKNOWN" u256_decimal str_decimal
         "List [Atom ''assert'', ?e]" ?s Continue ?s' ?e ?x "''f''"
         "[List [Atom ''x'', Atom ''1'']]" "Atom ''x''" "[''y'' \<mapsto> boolSort]" ?x "Atom ''x''"]
    a a' f x
  show ?thesis by (simp del: toSMTUtilExpression.simps)
qed

section \<open>The end of the input\<close>

lemma skipWhitespace_all:
  "\<forall>i. p \<le> i \<and> i < length d \<longrightarrow> isWhiteSpace (d ! i) \<Longrightarrow> p \<le> length d \<Longrightarrow>
   skipWhitespace d p = length d"
proof (induction d p rule: skipWhitespace.induct)
  case (1 d p)
  show ?case
  proof (cases "p < length d")
    case True
    with "1.prems" have w: "isWhiteSpace (token d p)" by (simp add: token_def)
    have "skipWhitespace d (advance p) = length d"
      using "1.IH"[OF w] "1.prems" True by (simp add: advance_def)
    with w show ?thesis by (subst skipWhitespace.simps) simp
  next
    case False
    with "1.prems" have p: "p = length d" by simp
    have "\<not> isWhiteSpace (token d p)" unfolding p by (simp add: token_def isWhiteSpace_def)
    then show ?thesis unfolding p by (subst skipWhitespace.simps) simp
  qed
qed

lemma parseExpression_whitespace:
  assumes "list_all isWhiteSpace d"
  shows "parseExpression d 0 = (Atom [], length d)"
proof -
  from assms have a: "\<forall>i. 0 \<le> i \<and> i < length d \<longrightarrow> isWhiteSpace (d ! i)"
    by (simp add: list_all_length)
  have s: "skipWhitespace d 0 = length d" by (rule skipWhitespace_all[OF a]) simp
  have t: "token d (length d) = CHR 0x00" by (simp add: token_def)
  have s2: "skipWhitespace d (length d) = length d"
    by (subst skipWhitespace.simps) (simp add: t isWhiteSpace_def)
  have l: "parseTokenLoop d (length d) False (length d) = length d"
    by (subst parseTokenLoop.simps) simp
  have "parseToken d (length d) = ([], length d)"
    by (simp add: parseToken_def Let_def s2 t l substr_def)
  then show ?thesis
    by (subst parseExpression.simps) (simp add: Let_def s t)
qed

lemma mainLoop_whitespace:
  assumes "inputToParse s \<noteq> []" "list_all isWhiteSpace (inputToParse s)"
  shows "mainLoop verdict u256 str s = Inl BadVariantAccess"
  using mainLoop_step[OF assms(1) parseExpression_whitespace[OF assms(2)]]
  by (simp add: dispatch_Atom)

lemma removeComments_no_comment: "CHR '';'' \<notin> set xs \<Longrightarrow> removeComments xs = xs"
  by (induction xs) auto

text \<open>
  Claim C4 fails on the code. The loop runs while the text that is left is not empty,
  and whitespace after the last form is text that is left: the next iteration parses it
  to the empty atom, and reading the items of an atom throws
  \<^verbatim>\<open>std::bad_variant_access\<close>, which nothing catches. A file that holds the one form
  \<open>(set-logic QF_LRA)\<close> followed by a line feed ends in that failure; the same file
  without the line feed ends with exit code 0.
\<close>

theorem C4_trailing_whitespace:
  "main verdict u256 str [prog, file] (\<lambda>f. ''(set-logic QF_LRA)'' @ [CHR 0x0A]) =
     Inl BadVariantAccess
   \<and> main verdict u256 str [prog, file] (\<lambda>f. ''(set-logic QF_LRA)'') =
     Inr (0, \<lparr>inputToParse = [], variableSorts = Map.empty, solver = [], cout = []\<rparr>)"
proof
  let ?s = "\<lambda>inp. \<lparr>inputToParse = inp, variableSorts = (Map.empty :: string \<rightharpoonup> Sort),
                 solver = [], cout = []\<rparr>"
  have d: "dispatch verdict u256 str (List [Atom ''set-logic'', Atom ''QF_LRA'']) s = Inr (Continue, s)"
    for s by (simp add: dispatch_def command_def)
  have p1: "parseExpression (''(set-logic QF_LRA)'' @ [CHR 0x0A]) 0 =
          (List [Atom ''set-logic'', Atom ''QF_LRA''], 18)"
    by code_simp
  have w: "mainLoop verdict u256 str (?s [CHR 0x0A]) = Inl BadVariantAccess"
    by (rule mainLoop_whitespace) (simp_all add: isWhiteSpace_def)
  have "mainLoop verdict u256 str (?s (''(set-logic QF_LRA)'' @ [CHR 0x0A])) = Inl BadVariantAccess"
    by (subst mainLoop_step[where expr="List [Atom ''set-logic'', Atom ''QF_LRA'']" and p=18])
       (simp_all add: p1[simplified] d w)
  then show "main verdict u256 str [prog, file] (\<lambda>f. ''(set-logic QF_LRA)'' @ [CHR 0x0A]) =
     Inl BadVariantAccess"
    by (simp add: main_def removeComments_no_comment)
next
  let ?s = "\<lambda>inp. \<lparr>inputToParse = inp, variableSorts = (Map.empty :: string \<rightharpoonup> Sort),
                 solver = [], cout = []\<rparr>"
  have d: "dispatch verdict u256 str (List [Atom ''set-logic'', Atom ''QF_LRA'']) s = Inr (Continue, s)"
    for s by (simp add: dispatch_def command_def)
  have p1: "parseExpression ''(set-logic QF_LRA)'' 0 =
          (List [Atom ''set-logic'', Atom ''QF_LRA''], 18)"
    by code_simp
  have "mainLoop verdict u256 str (?s ''(set-logic QF_LRA)'') = Inr (0, ?s [])"
    by (subst mainLoop_step[where expr="List [Atom ''set-logic'', Atom ''QF_LRA'']" and p=18])
       (simp_all add: p1 d mainLoop_empty)
  then show "main verdict u256 str [prog, file] (\<lambda>f. ''(set-logic QF_LRA)'') =
     Inr (0, \<lparr>inputToParse = [], variableSorts = Map.empty, solver = [], cout = []\<rparr>)"
    by (simp add: main_def removeComments_no_comment)
qed

section \<open>Empty lists and applications without arguments\<close>

text \<open>
  Claim C10 fails on the code. The elaborator reads \<^verbatim>\<open>_subExpr.front()\<close> without
  checking that the list has an element, and \<^verbatim>\<open>arguments.back()\<close> without checking that
  an argument was elaborated: elaborating \<open>()\<close> and \<open>(f)\<close> reads the front, respectively
  the back, of an empty vector. Both nodes reach the elaborator from the inputs
  \<open>(assert ())\<close> and \<open>(assert (f))\<close>.
\<close>

theorem C10_front_and_back_of_empty:
  "toSMTUtilExpression u256 str (List []) E = Inl UndefinedBehaviour \<and>
   toSMTUtilExpression u256 str (List [Atom ''f'']) E = Inl UndefinedBehaviour \<and>
   main verdict u256 str [prog, file] (\<lambda>f. ''(assert ())'') = Inl UndefinedBehaviour \<and>
   main verdict u256 str [prog, file] (\<lambda>f. ''(assert (f))'') = Inl UndefinedBehaviour"
proof (intro conjI)
  show a: "toSMTUtilExpression u256 str (List []) E = Inl UndefinedBehaviour" for E by simp
  show b: "toSMTUtilExpression u256 str (List [Atom ''f'']) E = Inl UndefinedBehaviour" for E
    by (simp add: boolOperators_def)
  have p1: "parseExpression ''(assert ())'' 0 = (List [Atom ''assert'', List []], 11)"
    by code_simp
  have p2: "parseExpression ''(assert (f))'' 0 = (List [Atom ''assert'', List [Atom ''f'']], 12)"
    by code_simp
  show "main verdict u256 str [prog, file] (\<lambda>f. ''(assert ())'') = Inl UndefinedBehaviour"
    unfolding main_def
    by (simp add: removeComments_no_comment)
       (subst mainLoop_step[where expr="List [Atom ''assert'', List []]" and p=11],
        simp_all add: p1 dispatch_assert)
  show "main verdict u256 str [prog, file] (\<lambda>f. ''(assert (f))'') = Inl UndefinedBehaviour"
    unfolding main_def
    by (simp add: removeComments_no_comment)
       (subst mainLoop_step[where expr="List [Atom ''assert'', List [Atom ''f'']]" and p=12],
        simp_all add: p2 dispatch_assert boolOperators_def)
qed

section \<open>The parser: positions, restart, unterminated lists\<close>

lemma token_drop: "token (drop p d) q = token d (p + q)"
  by (auto simp: token_def)

lemma skipWhitespace_drop_aux:
  "d' = drop p d \<Longrightarrow> skipWhitespace d (p + q) = p + skipWhitespace d' q"
proof (induction d' q arbitrary: rule: skipWhitespace.induct)
  case (1 d' q)
  show ?case
  proof (cases "isWhiteSpace (token d' q)")
    case True
    then have w: "isWhiteSpace (token d (p + q))" using "1.prems" by (simp add: token_drop)
    have "skipWhitespace d (p + advance q) = p + skipWhitespace d' (advance q)"
      using "1.IH"[OF True "1.prems"] .
    then show ?thesis
      using True w
      by (subst skipWhitespace.simps, subst (2) skipWhitespace.simps) (simp add: advance_def)
  next
    case False
    then have w: "\<not> isWhiteSpace (token d (p + q))" using "1.prems" by (simp add: token_drop)
    show ?thesis using False w by (simp add: skipWhitespace_fix)
  qed
qed

lemma skipWhitespace_drop: "skipWhitespace d (p + q) = p + skipWhitespace (drop p d) q"
  by (rule skipWhitespace_drop_aux) simp

lemma parseTokenLoop_drop_aux:
  "d' = drop p d \<Longrightarrow>
   parseTokenLoop d (p + start) isPipe (p + q) = p + parseTokenLoop d' start isPipe q"
proof (induction d' start isPipe q rule: parseTokenLoop.induct)
  case (1 d' start isPipe q)
  have len: "q < length d' \<longleftrightarrow> p + q < length d" using "1.prems" by auto
  have tok: "token d (p + q) = token d' q" using "1.prems" by (simp add: token_drop)
  show ?case
  proof (cases "q < length d'")
    case False
    with len show ?thesis
      by (subst parseTokenLoop.simps, subst (2) parseTokenLoop.simps) simp
  next
    case True
    let ?c = "token d' q"
    show ?thesis
    proof (cases "(isPipe \<and> (q > start \<and> ?c = CHR ''|'')) \<or>
                  (\<not> isPipe \<and> (isWhiteSpace ?c \<or> ?c = CHR ''('' \<or> ?c = CHR '')''))")
      case stop: True
      then show ?thesis using True len tok
        by (subst parseTokenLoop.simps, subst (2) parseTokenLoop.simps)
           (auto simp: Let_def advance_def)
    next
      case go: False
      have "parseTokenLoop d (p + start) isPipe (p + advance q) =
            p + parseTokenLoop d' start isPipe (advance q)"
        using "1.IH"[OF True refl _ _ "1.prems"] go by blast
      then show ?thesis using True len tok go
        by (subst parseTokenLoop.simps, subst (2) parseTokenLoop.simps)
           (auto simp: Let_def advance_def)
    qed
  qed
qed

lemma parseToken_drop:
  "parseToken d (p + q) = apsnd ((+) p) (parseToken (drop p d) q)"
proof -
  let ?q0 = "skipWhitespace (drop p d) q"
  have s: "skipWhitespace d (p + q) = p + ?q0" by (rule skipWhitespace_drop)
  have l: "parseTokenLoop d (p + ?q0) b (p + ?q0) = p + parseTokenLoop (drop p d) ?q0 b ?q0" for b
    by (rule parseTokenLoop_drop_aux) simp
  show ?thesis
    by (simp add: parseToken_def Let_def s l token_drop[symmetric] substr_def add.commute)
qed

lemma parse_drop_aux:
  "d' = drop p d \<Longrightarrow>
     parseExpression d (p + q) = apsnd ((+) p) (parseExpression d' q)"
  "d' = drop p d \<Longrightarrow>
     parseSubExpressions d (p + q) acc = apsnd ((+) p) (parseSubExpressions d' q acc)"
proof (induction d' q and d' q acc rule: parseExpression_parseSubExpressions.induct)
  case (1 d' q)
  let ?q1 = "skipWhitespace d' q"
  have s: "skipWhitespace d (p + q) = p + ?q1"
    using "1.prems" by (simp add: skipWhitespace_drop)
  have t: "token d (p + ?q1) = token d' ?q1" using "1.prems" by (simp add: token_drop)
  show ?case
  proof (cases "token d' ?q1 = CHR ''(''")
    case True
    have ih: "parseSubExpressions d (p + advance ?q1) [] =
              apsnd ((+) p) (parseSubExpressions d' (advance ?q1) [])"
      using "1.IH"[OF refl True "1.prems"] .
    obtain subs p2 where sub: "parseSubExpressions d' (advance ?q1) [] = (subs, p2)"
      by (cases "parseSubExpressions d' (advance ?q1) []")
    have a: "advance (p + ?q1) = p + advance ?q1" by (simp add: advance_def)
    have t2: "token d (p + p2) = token d' p2" using "1.prems" by (simp add: token_drop)
    show ?thesis
      using True
      by (simp add: parseExpression.simps[of d "p + q"] parseExpression.simps[of d' q]
            Let_def s t a ih sub t2)
         (simp add: advance_def)
  next
    case False
    have "parseToken d (p + ?q1) = apsnd ((+) p) (parseToken d' ?q1)"
      using "1.prems" by (simp add: parseToken_drop)
    then show ?thesis
      using False
      by (simp add: parseExpression.simps[of d "p + q"] parseExpression.simps[of d' q]
            Let_def s t split: prod.splits)
  qed
next
  case (2 d' q acc)
  have t: "token d (p + q) = token d' q" using "2.prems" by (simp add: token_drop)
  show ?case
  proof (cases "token d' q \<noteq> CHR 0x00 \<and> token d' q \<noteq> CHR '')''")
    case True
    obtain e p1 where pe: "parseExpression d' q = (e, p1)"
      by (cases "parseExpression d' q")
    have ih1: "parseExpression d (p + q) = (e, p + p1)"
      using "2.IH"(1)[OF True "2.prems"] pe by simp
    have s: "skipWhitespace d (p + p1) = p + skipWhitespace d' p1"
      using "2.prems" by (simp add: skipWhitespace_drop)
    have ih2: "parseSubExpressions d (p + skipWhitespace d' p1) (acc @ [e]) =
               apsnd ((+) p) (parseSubExpressions d' (skipWhitespace d' p1) (acc @ [e]))"
      using "2.IH"(2)[OF True pe[symmetric] "2.prems"] .
    show ?thesis
      using True
      by (simp add: parseSubExpressions.simps[of d "p + q"]
            parseSubExpressions.simps[of d' q] t pe ih1 s ih2)
  next
    case False
    then show ?thesis
      by (auto simp: parseSubExpressions.simps[of d "p + q"]
            parseSubExpressions.simps[of d' q] t)
  qed
qed

lemma parseExpression_drop:
  "parseExpression d p = apsnd ((+) p) (parseExpression (drop p d) 0)"
  using parse_drop_aux(1)[of "drop p d" p d 0] by simp

lemma parseMany_restart:
  "parseMany n d p = apsnd ((+) p) (parseMany n (drop p d) 0)"
proof (induction n arbitrary: p d)
  case 0
  show ?case by simp
next
  case (Suc n)
  obtain e q where e: "parseExpression (drop p d) 0 = (e, q)"
    by (cases "parseExpression (drop p d) 0")
  then have e': "parseExpression d p = (e, p + q)"
    using parseExpression_drop[of d p] by simp
  obtain es r where r: "parseMany n (drop (p + q) d) 0 = (es, r)"
    by (cases "parseMany n (drop (p + q) d) 0")
  have a: "parseMany n d (p + q) = (es, p + q + r)"
    using Suc.IH[of d "p + q"] r by simp
  have "drop q (drop p d) = drop (p + q) d" by (simp add: add.commute)
  then have b: "parseMany n (drop p d) q = (es, q + r)"
    using Suc.IH[of "drop p d" q] r by simp
  show ?case by (simp add: e e' a b)
qed

lemma skipWhitespace_le: "p \<le> length d \<Longrightarrow> skipWhitespace d p \<le> length d"
proof (induction d p rule: skipWhitespace.induct)
  case (1 d p)
  show ?case
  proof (cases "isWhiteSpace (token d p)")
    case True
    then have "p < length d" by (rule isWhiteSpace_token_less)
    then have "skipWhitespace d (advance p) \<le> length d"
      using "1.IH"[OF True] by (simp add: advance_def)
    with True show ?thesis by (subst skipWhitespace.simps) simp
  next
    case False
    with "1.prems" show ?thesis by (simp add: skipWhitespace_fix)
  qed
qed

lemma parseTokenLoop_le:
  "p \<le> length d \<Longrightarrow> parseTokenLoop d start isPipe p \<le> length d"
proof (induction d start isPipe p rule: parseTokenLoop.induct)
  case (1 d start isPipe p)
  show ?case
  proof (cases "p < length d")
    case False
    with "1.prems" show ?thesis by (subst parseTokenLoop.simps) simp
  next
    case True
    let ?c = "token d p"
    show ?thesis
    proof (cases "(isPipe \<and> (p > start \<and> ?c = CHR ''|'')) \<or>
                  (\<not> isPipe \<and> (isWhiteSpace ?c \<or> ?c = CHR ''('' \<or> ?c = CHR '')''))")
      case stop: True
      then show ?thesis using True
        by (subst parseTokenLoop.simps) (auto simp: Let_def advance_def)
    next
      case go: False
      have "parseTokenLoop d start isPipe (advance p) \<le> length d"
        using "1.IH"[OF True refl] go True by (auto simp: advance_def)
      then show ?thesis using True go
        by (subst parseTokenLoop.simps) (auto simp: Let_def)
    qed
  qed
qed

lemma parseToken_le: "p \<le> length d \<Longrightarrow> snd (parseToken d p) \<le> length d"
  by (simp add: parseToken_def Let_def skipWhitespace_le parseTokenLoop_le)

lemma token_close_less: "token d p = CHR '')'' \<Longrightarrow> p < length d"
  by (simp add: token_def split: if_splits)

lemma token_open_less: "token d p = CHR ''(''  \<Longrightarrow> p < length d"
  by (simp add: token_def split: if_splits)

lemma parse_le:
  "p \<le> length d \<Longrightarrow> snd (parseExpression d p) \<le> length d"
  "p \<le> length d \<Longrightarrow> snd (parseSubExpressions d p acc) \<le> length d"
proof (induction d p and d p acc rule: parseExpression_parseSubExpressions.induct)
  case (1 d p)
  let ?p1 = "skipWhitespace d p"
  have l1: "?p1 \<le> length d" using "1.prems" by (rule skipWhitespace_le)
  show ?case
  proof (cases "token d ?p1 = CHR ''(''")
    case True
    then have "advance ?p1 \<le> length d" using token_open_less[OF True] by (simp add: advance_def)
    then have ih: "snd (parseSubExpressions d (advance ?p1) []) \<le> length d"
      using "1.IH"[OF refl True] by simp
    obtain subs p2 where sub: "parseSubExpressions d (advance ?p1) [] = (subs, p2)"
      by (cases "parseSubExpressions d (advance ?p1) []")
    show ?thesis
      using True ih sub token_close_less[of d p2]
      by (auto simp: parseExpression.simps[of d p] Let_def advance_def)
  next
    case False
    then show ?thesis
      using parseToken_le[OF l1]
      by (auto simp: parseExpression.simps[of d p] Let_def split: prod.splits)
  qed
next
  case (2 d p acc)
  show ?case
  proof (cases "token d p \<noteq> CHR 0x00 \<and> token d p \<noteq> CHR '')''")
    case True
    obtain e p1 where pe: "parseExpression d p = (e, p1)"
      by (cases "parseExpression d p")
    have "p1 \<le> length d" using "2.IH"(1)[OF True "2.prems"] pe by simp
    then have "skipWhitespace d p1 \<le> length d" by (rule skipWhitespace_le)
    then have "snd (parseSubExpressions d (skipWhitespace d p1) (acc @ [e])) \<le> length d"
      using "2.IH"(2)[OF True pe[symmetric]] by simp
    then show ?thesis using True pe by (simp add: parseSubExpressions.simps[of d p])
  next
    case False
    then show ?thesis using "2.prems" by (auto simp: parseSubExpressions.simps[of d p])
  qed
qed

lemma parseMany_le: "p \<le> length d \<Longrightarrow> snd (parseMany n d p) \<le> length d"
proof (induction n arbitrary: p)
  case 0
  then show ?case by simp
next
  case (Suc n)
  obtain e p1 where e: "parseExpression d p = (e, p1)" by (cases "parseExpression d p")
  then have "p1 \<le> length d" using parse_le(1)[OF Suc.prems] by simp
  then have "snd (parseMany n d p1) \<le> length d" by (rule Suc.IH)
  then show ?case by (auto simp: e split: prod.splits)
qed

text \<open>
  Claim C6. Parsing is restartable: reading \<open>n\<close> expressions with a fresh parser on the
  remaining input after each one yields the same expressions, and the same remaining
  input, as \<open>n\<close> calls on one parser over the whole text. The parser consumes a prefix of
  its input, and \<open>remainingInput\<close> is the suffix after it.
\<close>

theorem C6_restartable:
  "parseRestarting n input =
     (fst (parseMany n input 0), remainingInput input (snd (parseMany n input 0)))
   \<and> snd (parseMany n input 0) \<le> length input
   \<and> input = take (snd (parseMany n input 0)) input
              @ remainingInput input (snd (parseMany n input 0))"
proof (intro conjI)
  show "parseRestarting n input =
     (fst (parseMany n input 0), remainingInput input (snd (parseMany n input 0)))"
  proof (induction n arbitrary: input)
    case 0
    show ?case by (simp add: remainingInput_def)
  next
    case (Suc n)
    obtain e p1 where e: "parseExpression input 0 = (e, p1)"
      by (cases "parseExpression input 0")
    obtain es r where r: "parseMany n (drop p1 input) 0 = (es, r)"
      by (cases "parseMany n (drop p1 input) 0")
    have a: "parseMany n input p1 = (es, p1 + r)"
      using parseMany_restart[of n input p1] r by simp
    have b: "parseRestarting n (drop p1 input) = (es, drop r (drop p1 input))"
      using Suc.IH[of "drop p1 input"] r by (simp add: remainingInput_def)
    show ?case
      by (simp add: e a b remainingInput_def add.commute)
  qed
  show "snd (parseMany n input 0) \<le> length input"
    by (rule parseMany_le) simp
  show "input = take (snd (parseMany n input 0)) input
              @ remainingInput input (snd (parseMany n input 0))"
    by (simp add: remainingInput_def)
qed

theorem C6_restartable_witness:
  "parseRestarting 3 ''(a b) c (d'' =
     ([List [Atom ''a'', Atom ''b''], Atom ''c'', List [Atom ''d'']], [])"
proof -
  have "parseMany 3 ''(a b) c (d'' 0 =
          ([List [Atom ''a'', Atom ''b''], Atom ''c'', List [Atom ''d'']], 10)"
    by code_simp
  with C6_restartable[of 3 "''(a b) c (d''"] show ?thesis
    by (simp add: remainingInput_def)
qed

lemma loop_exit:
  "token d (snd (parseSubExpressions d p acc)) = CHR '')'' \<or>
   token d (snd (parseSubExpressions d p acc)) = CHR 0x00"
proof (induction d p acc rule: parseExpression_parseSubExpressions.induct(2)
         [where P = "\<lambda>d p. True"])
  case (1 d p)
  show ?case by simp
next
  case (2 d p acc)
  show ?case
  proof (cases "token d p \<noteq> CHR 0x00 \<and> token d p \<noteq> CHR '')''")
    case True
    obtain e p1 where pe: "parseExpression d p = (e, p1)"
      by (cases "parseExpression d p")
    from "2.IH"[OF True pe[symmetric]] True pe
    show ?thesis by (simp add: parseSubExpressions.simps[of d p])
  next
    case False
    then show ?thesis by (auto simp: parseSubExpressions.simps[of d p])
  qed
qed

lemma token_zero_end: "token d p = CHR 0x00 \<Longrightarrow> CHR 0x00 \<notin> set d \<Longrightarrow> length d \<le> p"
  by (auto simp: token_def in_set_conv_nth split: if_splits)

lemma token_append_less: "p < length d \<Longrightarrow> token (d @ e) p = token d p"
  by (simp add: token_def nth_append)

lemma token_append_close: "token (d @ '')'') (length d) = CHR '')''"
  by (simp add: token_def)

lemma token_end: "token d (length d) = CHR 0x00"
  by (simp add: token_def)

lemma token_past_end: "token (d @ '')'') (Suc (length d)) = CHR 0x00"
  by (simp add: token_def)

lemma skipWhitespace_append_close:
  "p \<le> length d \<Longrightarrow> skipWhitespace (d @ '')'') p = skipWhitespace d p"
proof (induction d p rule: skipWhitespace.induct)
  case (1 d p)
  show ?case
  proof (cases "p < length d")
    case True
    then have t: "token (d @ '')'') p = token d p" by (rule token_append_less)
    show ?thesis
    proof (cases "isWhiteSpace (token d p)")
      case w: True
      have "skipWhitespace (d @ '')'') (advance p) = skipWhitespace d (advance p)"
        using "1.IH"[OF w] True by (simp add: advance_def)
      then show ?thesis
        using w t by (simp add: skipWhitespace.simps[of d p] skipWhitespace.simps[of "d @ '')''" p])
    next
      case False
      then show ?thesis using t by (simp add: skipWhitespace_fix)
    qed
  next
    case False
    with "1.prems" have p: "p = length d" by simp
    show ?thesis unfolding p
      by (simp add: skipWhitespace_fix token_append_close token_end isWhiteSpace_def)
  qed
qed

lemma parseTokenLoop_append_close:
  "p \<le> length d \<Longrightarrow>
   parseTokenLoop (d @ '')'') start False p = parseTokenLoop d start False p"
proof (induction d start "False" p rule: parseTokenLoop.induct)
  case (1 d start p)
  show ?case
  proof (cases "p < length d")
    case True
    then have t: "token (d @ '')'') p = token d p" by (rule token_append_less)
    let ?c = "token d p"
    show ?thesis
    proof (cases "isWhiteSpace ?c \<or> ?c = CHR ''('' \<or> ?c = CHR '')''")
      case stop: True
      then show ?thesis using True t
        by (simp add: parseTokenLoop.simps[of d start False p]
              parseTokenLoop.simps[of "d @ '')''" start False p] Let_def)
    next
      case go: False
      have "parseTokenLoop (d @ '')'') start False (advance p) =
            parseTokenLoop d start False (advance p)"
        using "1.hyps"[OF True refl] go True by (simp add: advance_def)
      then show ?thesis using True t go
        by (simp add: parseTokenLoop.simps[of d start False p]
              parseTokenLoop.simps[of "d @ '')''" start False p] Let_def)
    qed
  next
    case False
    with "1.prems" have p: "p = length d" by simp
    show ?thesis unfolding p
      by (simp add: parseTokenLoop.simps[of d start False "length d"]
            parseTokenLoop.simps[of "d @ '')''" start False "length d"]
            Let_def token_append_close)
  qed
qed

lemma token_not_pipe: "CHR ''|'' \<notin> set d \<Longrightarrow> token d p \<noteq> CHR ''|''"
  by (auto simp: token_def in_set_conv_nth)

lemma parseToken_append_close:
  assumes "CHR ''|'' \<notin> set d" "p \<le> length d"
  shows "parseToken (d @ '')'') p = parseToken d p"
proof -
  let ?p0 = "skipWhitespace d p"
  have s: "skipWhitespace (d @ '')'') p = ?p0" using assms(2) by (rule skipWhitespace_append_close)
  have l0: "?p0 \<le> length d" using assms(2) by (rule skipWhitespace_le)
  have np: "token d ?p0 \<noteq> CHR ''|''" using assms(1) by (rule token_not_pipe)
  have np': "token (d @ '')'') ?p0 \<noteq> CHR ''|''"
    using assms(1) token_not_pipe[of "d @ '')''" ?p0] by simp
  let ?p1 = "parseTokenLoop d ?p0 False ?p0"
  have l: "parseTokenLoop (d @ '')'') ?p0 False ?p0 = ?p1"
    using l0 by (rule parseTokenLoop_append_close)
  have l1: "?p1 \<le> length d" using l0 by (rule parseTokenLoop_le)
  have "substr (d @ '')'') ?p0 (?p1 - ?p0) = substr d ?p0 (?p1 - ?p0)"
    using l0 l1 by (simp add: substr_def)
  then show ?thesis
    by (simp add: parseToken_def Let_def s np np' l)
qed

lemma parse_append_close:
  "CHR ''|'' \<notin> set d \<Longrightarrow> p \<le> length d \<Longrightarrow>
     parseExpression (d @ '')'') p = parseExpression d p \<or>
     (snd (parseExpression d p) = length d \<and>
      parseExpression (d @ '')'') p = (fst (parseExpression d p), Suc (length d)))"
  "CHR ''|'' \<notin> set d \<Longrightarrow> p \<le> length d \<Longrightarrow>
     parseSubExpressions (d @ '')'') p acc = parseSubExpressions d p acc \<or>
     (snd (parseSubExpressions d p acc) = length d \<and>
      parseSubExpressions (d @ '')'') p acc = (fst (parseSubExpressions d p acc), Suc (length d)))"
proof (induction d p and d p acc rule: parseExpression_parseSubExpressions.induct)
  case (1 d p)
  let ?d' = "d @ '')''"
  let ?p1 = "skipWhitespace d p"
  have s: "skipWhitespace ?d' p = ?p1" using "1.prems"(2) by (rule skipWhitespace_append_close)
  have l1: "?p1 \<le> length d" using "1.prems"(2) by (rule skipWhitespace_le)
  show ?case
  proof (cases "token d ?p1 = CHR ''(''")
    case True
    then have lt: "?p1 < length d" by (rule token_open_less)
    then have t: "token ?d' ?p1 = CHR ''(''" using True by (simp add: token_append_less)
    obtain subs p2 where sub: "parseSubExpressions d (advance ?p1) [] = (subs, p2)"
      by (cases "parseSubExpressions d (advance ?p1) []")
    have a: "advance ?p1 \<le> length d" using lt by (simp add: advance_def)
    have p2: "p2 \<le> length d" using parse_le(2)[OF a, of "[]"] sub by simp
    have resd: "parseExpression d p =
        (List subs, if token d p2 = CHR '')'' then advance p2 else p2)"
      using True sub by (simp add: parseExpression.simps[of d p] Let_def)
    have resd': "parseExpression ?d' p =
        (case parseSubExpressions ?d' (advance ?p1) [] of
           (subs', p2') \<Rightarrow>
             (List subs', if token ?d' p2' = CHR '')'' then advance p2' else p2'))"
      using t by (simp add: parseExpression.simps[of ?d' p] Let_def s)
    from "1.IH"[OF refl True "1.prems"(1) a] sub
    consider (same) "parseSubExpressions ?d' (advance ?p1) [] = (subs, p2)"
      | (more) "p2 = length d" "parseSubExpressions ?d' (advance ?p1) [] = (subs, Suc (length d))"
      by auto
    then show ?thesis
    proof cases
      case same
      show ?thesis
      proof (cases "p2 < length d")
        case True
        then show ?thesis using resd resd' same by (simp add: token_append_less)
      next
        case False
        with p2 have e: "p2 = length d" by simp
        show ?thesis using resd resd' same unfolding e
          by (simp add: token_append_close token_end advance_def)
      qed
    next
      case more
      show ?thesis using resd resd' more
        by (simp add: token_end token_past_end)
    qed
  next
    case False
    have t: "token ?d' ?p1 \<noteq> CHR ''(''"
    proof (cases "?p1 < length d")
      case True
      then show ?thesis using False by (simp add: token_append_less)
    next
      case nl: False
      with l1 have "?p1 = length d" by simp
      then show ?thesis by (simp add: token_append_close)
    qed
    have "parseToken ?d' ?p1 = parseToken d ?p1"
      using "1.prems"(1) l1 by (rule parseToken_append_close)
    then have "parseExpression ?d' p = parseExpression d p"
      using False t
      by (simp add: parseExpression.simps[of d p] parseExpression.simps[of ?d' p] Let_def s)
    then show ?thesis by simp
  qed
next
  case (2 d p acc)
  let ?d' = "d @ '')''"
  show ?case
  proof (cases "token d p \<noteq> CHR 0x00 \<and> token d p \<noteq> CHR '')''")
    case True
    then have lt: "p < length d" by (auto dest: token_nonzero_less)
    then have t: "token ?d' p = token d p" by (rule token_append_less)
    obtain e p1 where pe: "parseExpression d p = (e, p1)"
      by (cases "parseExpression d p")
    have p1: "p1 \<le> length d" using parse_le(1)[OF "2.prems"(2)] pe by simp
    let ?q = "skipWhitespace d p1"
    have q: "?q \<le> length d" using p1 by (rule skipWhitespace_le)
    have resd: "parseSubExpressions d p acc = parseSubExpressions d ?q (acc @ [e])"
      using True pe by (simp add: parseSubExpressions.simps[of d p])
    from "2.IH"(1)[OF True "2.prems"] pe
    consider (same) "parseExpression ?d' p = (e, p1)"
      | (more) "p1 = length d" "parseExpression ?d' p = (e, Suc (length d))"
      by auto
    then show ?thesis
    proof cases
      case same
      have "parseSubExpressions ?d' p acc = parseSubExpressions ?d' ?q (acc @ [e])"
        using True t same p1
        by (simp add: parseSubExpressions.simps[of ?d' p] skipWhitespace_append_close)
      with "2.IH"(2)[OF True pe[symmetric] "2.prems"(1) q] resd
      show ?thesis by simp
    next
      case more
      have s': "skipWhitespace ?d' (Suc (length d)) = Suc (length d)"
        by (simp add: skipWhitespace_fix token_past_end isWhiteSpace_def)
      have "parseSubExpressions ?d' p acc = (acc @ [e], Suc (length d))"
        using True t more(2)
        by (simp add: parseSubExpressions.simps[of ?d' p] s')
           (simp add: parseSubExpressions.simps[of ?d' "Suc (length d)"] token_past_end)
      moreover have "parseSubExpressions d p acc = (acc @ [e], length d)"
        unfolding resd more(1)
        by (simp add: skipWhitespace_fix token_end isWhiteSpace_def
              parseSubExpressions.simps[of d "length d"])
      ultimately show ?thesis by simp
    qed
  next
    case False
    then have rd: "parseSubExpressions d p acc = (acc, p)"
      by (auto simp: parseSubExpressions.simps[of d p])
    have "token ?d' p = CHR 0x00 \<or> token ?d' p = CHR '')''"
    proof (cases "p < length d")
      case True
      then show ?thesis using False by (simp add: token_append_less)
    next
      case nl: False
      with "2.prems"(2) have "p = length d" by simp
      then show ?thesis by (simp add: token_append_close)
    qed
    then have "parseSubExpressions ?d' p acc = (acc, p)"
      by (auto simp: parseSubExpressions.simps[of ?d' p])
    with rd show ?thesis by simp
  qed
qed

lemma unterminated_as_if_closed:
  assumes "CHR ''|'' \<notin> set d" "CHR 0x00 \<notin> set d" "p \<le> length d"
    and o: "token d (skipWhitespace d p) = CHR ''(''"
    and sub: "parseSubExpressions d (advance (skipWhitespace d p)) [] = (subs, p2)"
    and un: "token d p2 \<noteq> CHR '')''"
  shows "parseExpression (d @ '')'') p = (List subs, Suc (length d))"
proof -
  let ?d' = "d @ '')''"
  let ?p1 = "skipWhitespace d p"
  have s: "skipWhitespace ?d' p = ?p1" using assms(3) by (rule skipWhitespace_append_close)
  have lt: "?p1 < length d" using o by (rule token_open_less)
  then have t: "token ?d' ?p1 = CHR ''(''" using o by (simp add: token_append_less)
  have a: "advance ?p1 \<le> length d" using lt by (simp add: advance_def)
  have p2: "p2 \<le> length d" using parse_le(2)[OF a, of "[]"] sub by simp
  have "token d p2 = CHR 0x00"
    using loop_exit[of d "advance ?p1" "[]"] sub un by simp
  then have "length d \<le> p2" using assms(2) by (rule token_zero_end)
  with p2 have e: "p2 = length d" by simp
  have resd': "parseExpression ?d' p =
        (case parseSubExpressions ?d' (advance ?p1) [] of
           (subs', p2') \<Rightarrow>
             (List subs', if token ?d' p2' = CHR '')'' then advance p2' else p2'))"
    using t by (simp add: parseExpression.simps[of ?d' p] Let_def s)
  from parse_append_close(2)[OF assms(1) a, of "[]"] sub e
  consider (same) "parseSubExpressions ?d' (advance ?p1) [] = (subs, length d)"
    | (more) "parseSubExpressions ?d' (advance ?p1) [] = (subs, Suc (length d))"
    by auto
  then show ?thesis
  proof cases
    case same
    then show ?thesis using resd' by (simp add: token_append_close advance_def)
  next
    case more
    then show ?thesis using resd' by (simp add: token_past_end)
  qed
qed

text \<open>
  Claim C5. The parser has no failure: it is a total function, and from a position
  inside the text it never moves past the end of the text. When \<open>parseExpression\<close> meets
  an opening parenthesis, the loop over the elements ends only at a closing parenthesis
  or at the end marker that \<open>token\<close> returns at the end of the text; in both cases the
  result is the list of the elements parsed so far, the closing parenthesis being
  consumed when there is one. When there is none (and the text holds no NUL character,
  which \<open>token\<close> cannot tell from the end of the text), the list is returned all the same
  and all of the text has been consumed. It is the list that the parser returns for the
  same text with the missing parenthesis added at its end (where the text holds no pipe,
  so that the added parenthesis cannot fall inside a quoted atom).
\<close>

theorem C5_unterminated_list:
  "p \<le> length d \<Longrightarrow> token d (skipWhitespace d p) = CHR ''('' \<Longrightarrow>
   parseSubExpressions d (advance (skipWhitespace d p)) [] = (subExpressions, p2) \<Longrightarrow>
     snd (parseExpression d p) \<le> length d \<and>
     (token d p2 = CHR '')'' \<or> token d p2 = CHR 0x00) \<and>
     parseExpression d p =
       (List subExpressions, if token d p2 = CHR '')'' then advance p2 else p2) \<and>
     (token d p2 = CHR '')'' \<or> CHR 0x00 \<in> set d \<or>
        (parseExpression d p = (List subExpressions, length d) \<and>
         remainingInput d (snd (parseExpression d p)) = [])) \<and>
     (token d p2 = CHR '')'' \<or> CHR 0x00 \<in> set d \<or> CHR ''|'' \<in> set d \<or>
        parseExpression (d @ '')'') p = (List subExpressions, Suc (length d)))"
proof (intro conjI)
  assume p: "p \<le> length d" and o: "token d (skipWhitespace d p) = CHR ''(''"
    and s: "parseSubExpressions d (advance (skipWhitespace d p)) [] = (subExpressions, p2)"
  show le: "snd (parseExpression d p) \<le> length d" using p by (rule parse_le)
  show ex: "token d p2 = CHR '')'' \<or> token d p2 = CHR 0x00"
    using loop_exit[of d "advance (skipWhitespace d p)" "[]"] s by simp
  show eq: "parseExpression d p =
       (List subExpressions, if token d p2 = CHR '')'' then advance p2 else p2)"
    using o s by (simp add: parseExpression.simps[of d p] Let_def)
  show "token d p2 = CHR '')'' \<or> CHR 0x00 \<in> set d \<or>
        (parseExpression d p = (List subExpressions, length d) \<and>
         remainingInput d (snd (parseExpression d p)) = [])"
  proof (cases "token d p2 = CHR '')'' \<or> CHR 0x00 \<in> set d")
    case True
    then show ?thesis by blast
  next
    case False
    with ex have z: "token d p2 = CHR 0x00" by blast
    with False have "length d \<le> p2" by (intro token_zero_end) auto
    moreover from eq False le have "p2 \<le> length d" by simp
    ultimately have "p2 = length d" by simp
    with eq False show ?thesis by (simp add: remainingInput_def)
  qed
  show "token d p2 = CHR '')'' \<or> CHR 0x00 \<in> set d \<or> CHR ''|'' \<in> set d \<or>
        parseExpression (d @ '')'') p = (List subExpressions, Suc (length d))"
    using unterminated_as_if_closed[OF _ _ p o s] by blast
qed

theorem C5_unterminated_list_witness:
  "(0::nat) \<le> length ''  (a (b c) '' \<and> token ''  (a (b c) '' (skipWhitespace ''  (a (b c) '' 0) = CHR ''('' \<and>
   parseSubExpressions ''  (a (b c) '' (advance (skipWhitespace ''  (a (b c) '' 0)) [] =
     ([Atom ''a'', List [Atom ''b'', Atom ''c'']], 11) \<and>
   CHR 0x00 \<notin> set ''  (a (b c) '' \<and> token ''  (a (b c) '' 11 \<noteq> CHR '')'' \<and>
   parseExpression ''  (a (b c) '' 0 = (List [Atom ''a'', List [Atom ''b'', Atom ''c'']], 11) \<and>
   remainingInput ''  (a (b c) '' 11 = [] \<and>
   CHR ''|'' \<notin> set ''  (a (b c) '' \<and>
   parseExpression (''  (a (b c) '' @ '')'') 0 =
     (List [Atom ''a'', List [Atom ''b'', Atom ''c'']], 12)"
proof -
  let ?d = "''  (a (b c) ''"
  have a: "0 \<le> length ?d" by simp
  have b: "token ?d (skipWhitespace ?d 0) = CHR ''(''" by code_simp
  have c: "parseSubExpressions ?d (advance (skipWhitespace ?d 0)) [] =
     ([Atom ''a'', List [Atom ''b'', Atom ''c'']], 11)" by code_simp
  have n: "CHR 0x00 \<notin> set ?d" by simp
  have t: "token ?d 11 \<noteq> CHR '')''" by (simp add: token_def)
  have r: "remainingInput ?d 11 = []" by (simp add: remainingInput_def)
  have np: "CHR ''|'' \<notin> set ?d" by simp
  from C5_unterminated_list[OF a b c] n t np
  have "parseExpression ?d 0 = (List [Atom ''a'', List [Atom ''b'', Atom ''c'']], 11)"
    and "parseExpression (?d @ '')'') 0 =
           (List [Atom ''a'', List [Atom ''b'', Atom ''c'']], Suc (length ?d))"
    by simp_all
  with b c n t r np show ?thesis by simp
qed

end
